theory Spec2Isabelle
  imports Main "HOL-Library.Multiset"
begin

section \<open>Python values, exceptions and the built-ins the program uses\<close>

text \<open>
  The program is four Python modules: \<^verbatim>\<open>Concurrency.py\<close> (menu, process-pool download,
  CPU-bound batch), \<^verbatim>\<open>URLDownloadSynchronous.py\<close>, \<^verbatim>\<open>URLDownloadMultiThreaded.py\<close> and
  \<^verbatim>\<open>URLDownloadAsyncIO.py\<close>. Python integers are unbounded (\<open>int\<close>), strings are
  \<open>string\<close>, an exception raised by a call is the \<open>Inl\<close> branch of its result.
\<close>

datatype exn =
    EOFError                \<comment> \<open>\<^verbatim>\<open>input()\<close> at the end of standard input\<close>
  | AttributeError          \<comment> \<open>attribute access on \<^verbatim>\<open>None\<close>\<close>
  | RequestException string \<comment> \<open>any exception raised by the HTTP library for one request\<close>

datatype pyval = PyNone | PyInt int | PyStr string | PyList "pyval list"

text \<open>\<^verbatim>\<open>range(n)\<close>: the integers \<open>0, 1, ..., n - 1\<close>, empty when \<open>n \<le> 0\<close>.\<close>

definition range_py :: "int \<Rightarrow> int list" where
  "range_py n = [0..n - 1]"

text \<open>\<^verbatim>\<open>xs * n\<close> on a list: \<open>n\<close> copies of \<open>xs\<close>, one after the other.\<close>

definition list_times :: "'a list \<Rightarrow> nat \<Rightarrow> 'a list" where
  "list_times xs n = concat (replicate n xs)"

section \<open>The compute work function (\<^verbatim>\<open>Concurrency.py\<close>, \<^verbatim>\<open>sumOfSquares\<close>)\<close>

text \<open>
  \<^verbatim>\<open>def sumOfSquares(number): return sum(i * i for i in range(number))\<close>
\<close>

definition sumOfSquares :: "int \<Rightarrow> int" where
  "sumOfSquares number = sum_list (map (\<lambda>i. i * i) (range_py number))"

section \<open>The menu loop (\<^verbatim>\<open>Concurrency.py\<close>, \<^verbatim>\<open>getProcessSelection\<close>)\<close>

text \<open>
  The console is the list of lines still to be read from standard input and the list of
  strings written so far, one entry per \<^verbatim>\<open>print\<close> call or \<^verbatim>\<open>input\<close> prompt.
  \<^verbatim>\<open>input(prompt)\<close> writes the prompt, then returns the next line, or raises
  \<^verbatim>\<open>EOFError\<close> when standard input is exhausted.
\<close>

definition nl :: string where
  "nl = [CHR 0x0A]"

definition menu_text :: string where
  "menu_text = nl
     @ ''        1.) I/O Bound Problem: Download Multiple URLs - Synchronous Approach'' @ nl
     @ ''        2.) I/O Bound Problem: Download Multiple URLs - Multithreaded Approach'' @ nl
     @ ''        3.) I/O Bound Problem: Download Multiple URLs - AsyncIO Approach'' @ nl
     @ ''        4.) I/O Bound Problem: Download Multiple URLs - Multiprocess Approach'' @ nl
     @ ''        5.) CPU Bound Problem: CPU Intensive Operation- Synchronous Approach'' @ nl
     @ ''        6.) CPU Bound Problem: CPU Intensive Operation- Multiprocess Approach''"

definition prompt_text :: string where
  "prompt_text = nl @
     ''Please make a selection from the above choices. Please Enter a Value Between 1 and 6 (or q to quit): ''"

definition invalid_text :: string where
  "invalid_text = nl @ ''INVALID SELECTION!'' @ nl"

definition selections :: "string list" where
  "selections = [''1'', ''2'', ''3'', ''4'', ''5'', ''6'']"

text \<open>
  The \<^verbatim>\<open>while (processSelection != 'q')\<close> loop, entered with the current value of
  \<^verbatim>\<open>processSelection\<close>, the unread input and the output so far. It yields the value
  returned (or the exception raised), the input left unread and the output.
  \<^verbatim>\<open>continue\<close> goes back to the loop test, \<^verbatim>\<open>break\<close> leaves the loop.
\<close>

function getProcessSelection_loop ::
  "string \<Rightarrow> string list \<Rightarrow> string list \<Rightarrow> (exn + string) \<times> string list \<times> string list" where
  "getProcessSelection_loop processSelection inp out =
     (if processSelection \<noteq> ''q'' then
        (case inp of
           [] \<Rightarrow> (Inl EOFError, [], out @ [menu_text, prompt_text])
         | line # rest \<Rightarrow>
             if line \<notin> set selections then
               (if line \<noteq> ''q''
                then getProcessSelection_loop line rest (out @ [menu_text, prompt_text, invalid_text])
                else getProcessSelection_loop line rest (out @ [menu_text, prompt_text]))
             else (Inr line, rest, out @ [menu_text, prompt_text]))
      else (Inr processSelection, inp, out))"
  by pat_completeness auto
termination
  by (relation "measure (\<lambda>(s, inp, out). length inp)") auto

declare getProcessSelection_loop.simps [simp del]

definition getProcessSelection ::
  "string list \<Rightarrow> (exn + string) \<times> string list \<times> string list" where
  "getProcessSelection inp = getProcessSelection_loop [] inp []"

text \<open>An input that ends the loop: one of the six selections, or the quit input.\<close>

definition accepted :: "string \<Rightarrow> bool" where
  "accepted s = (s \<in> set selections \<or> s = ''q'')"

section \<open>The interpreter state and its effects\<close>

text \<open>
  Everything a work function does to the outside world is an event appended to the
  trace of the process that runs it, tagged with the thread that ran it: constructing or
  closing an HTTP session, entering a per-item work function, issuing a GET, writing a
  line, creating an asyncio task. The \<open>Call\<close> events are the model's record of
  "the work function was invoked with this argument".
\<close>

type_synonym url = string
type_synonym session = nat
type_synonym thread = nat

datatype call = DownloadSite url | SumOfSquares int

datatype event =
    NewSession session
  | CloseSession session
  | Call call
  | Get session url
  | Print string
  | TaskCreated nat url

text \<open>
  What the program reads of a response: \<^verbatim>\<open>len(response.content)\<close> (requests) and
  \<^verbatim>\<open>response.content_length\<close> (aiohttp, \<^verbatim>\<open>None\<close> without the header).
\<close>

record response =
  content_len :: nat
  content_length :: "nat option"

text \<open>
  The network is a parameter: the outcome of a GET issued by the process of the given name
  for a URL when the trace of that process has the given length, a response or the
  exception the library raises. No two requests share these three, so every request has
  an outcome of its own.
\<close>

type_synonym network = "string \<Rightarrow> url \<Rightarrow> nat \<Rightarrow> exn + response"

record proc =
  trace :: "(thread \<times> event) list"
  current_thread :: thread
  threads_started :: nat
  process_name :: string
  sessions_created :: nat
  global_session :: "session option"
  threadLocal :: "thread \<Rightarrow> session option"

text \<open>
  \<open>global_session\<close> is the module global \<^verbatim>\<open>session\<close> of \<^verbatim>\<open>Concurrency.py\<close>
  (\<^verbatim>\<open>None\<close> at import); \<open>threadLocal\<close> is the attribute \<^verbatim>\<open>session\<close> of
  \<^verbatim>\<open>threadLocal = threading.local()\<close> in \<^verbatim>\<open>URLDownloadMultiThreaded.py\<close>, one slot per
  thread, unset (\<open>None\<close>) until that thread assigns it.
\<close>

definition emit :: "event \<Rightarrow> proc \<Rightarrow> proc" where
  "emit e w = w\<lparr>trace := trace w @ [(current_thread w, e)]\<rparr>"

text \<open>\<^verbatim>\<open>requests.Session()\<close> and \<^verbatim>\<open>aiohttp.ClientSession()\<close>: a new session object.\<close>

definition Session :: "proc \<Rightarrow> session \<times> proc" where
  "Session w =
     (let s = sessions_created w
      in (s, emit (NewSession s) (w\<lparr>sessions_created := Suc s\<rparr>)))"

text \<open>\<^verbatim>\<open>session.get(url)\<close>.\<close>

definition session_get :: "network \<Rightarrow> session \<Rightarrow> url \<Rightarrow> proc \<Rightarrow> (exn + response) \<times> proc" where
  "session_get net s u w = (net (process_name w) u (length (trace w)), emit (Get s u) w)"

text \<open>\<^verbatim>\<open>str\<close> of a natural number and of an optional one, as f-strings format them.\<close>

function str_nat :: "nat \<Rightarrow> string" where
  "str_nat n =
     (if n < 10 then [char_of (48 + n)]
      else str_nat (n div 10) @ [char_of (48 + n mod 10)])"
  by pat_completeness auto
termination
  by (relation "measure (\<lambda>n. n)") auto

declare str_nat.simps [simp del]

definition str_opt :: "nat option \<Rightarrow> string" where
  "str_opt v = (case v of None \<Rightarrow> ''None'' | Some n \<Rightarrow> str_nat n)"

text \<open>The line \<^verbatim>\<open>f"Read {n} from {url}"\<close>, \<open>n\<close> already formatted.\<close>

definition read_line :: "string \<Rightarrow> url \<Rightarrow> string" where
  "read_line n u = ''Read '' @ n @ '' from '' @ u"

text \<open>
  The statement \<^verbatim>\<open>for x in xs: body(x)\<close>: the value of the body is dropped, an
  exception raised by the body leaves the loop and the function around it.
\<close>

fun for_each :: "('a \<Rightarrow> 's \<Rightarrow> (exn + pyval) \<times> 's) \<Rightarrow> 'a list \<Rightarrow> 's \<Rightarrow> (exn + pyval) \<times> 's" where
  "for_each body [] w = (Inr PyNone, w)"
| "for_each body (x # xs) w =
     (case body x w of
        (Inl e, w1) \<Rightarrow> (Inl e, w1)
      | (Inr v, w1) \<Rightarrow> for_each body xs w1)"

text \<open>Projections of a trace.\<close>

definition events :: "proc \<Rightarrow> event list" where
  "events w = map snd (trace w)"

fun the_call :: "event \<Rightarrow> call option" where
  "the_call (Call c) = Some c"
| "the_call e = None"

fun the_get :: "event \<Rightarrow> url option" where
  "the_get (Get s u) = Some u"
| "the_get e = None"

fun the_print :: "event \<Rightarrow> string option" where
  "the_print (Print l) = Some l"
| "the_print e = None"

fun the_new :: "event \<Rightarrow> session option" where
  "the_new (NewSession s) = Some s"
| "the_new e = None"

definition calls :: "proc \<Rightarrow> call list" where
  "calls w = List.map_filter the_call (events w)"

definition gets :: "proc \<Rightarrow> url list" where
  "gets w = List.map_filter the_get (events w)"

definition prints :: "proc \<Rightarrow> string list" where
  "prints w = List.map_filter the_print (events w)"

section \<open>Sequential download (\<^verbatim>\<open>URLDownloadSynchronous.py\<close>)\<close>

text \<open>
  \<^verbatim>\<open>def downloadSite(url, session):
      with session.get(url) as response:
          print(f"Read {len(response.content)} from {url}")\<close>
\<close>

definition downloadSite_sync :: "network \<Rightarrow> url \<Rightarrow> session \<Rightarrow> proc \<Rightarrow> (exn + pyval) \<times> proc" where
  "downloadSite_sync net u s w =
     (case session_get net s u (emit (Call (DownloadSite u)) w) of
        (Inl e, w1) \<Rightarrow> (Inl e, w1)
      | (Inr response, w1) \<Rightarrow>
          (Inr PyNone, emit (Print (read_line (str_nat (content_len response)) u)) w1))"

text \<open>
  \<^verbatim>\<open>def downloadAllSites(sites):
      with requests.Session() as session:
          for url in sites:
              downloadSite(url, session)\<close>
  Leaving the \<^verbatim>\<open>with\<close> block closes the session on every path and lets an exception
  through.
\<close>

definition downloadAllSites_sync :: "network \<Rightarrow> url list \<Rightarrow> proc \<Rightarrow> (exn + pyval) \<times> proc" where
  "downloadAllSites_sync net sites w =
     (case Session w of
        (s, w1) \<Rightarrow>
          (case for_each (\<lambda>u. downloadSite_sync net u s) sites w1 of
             (r, w2) \<Rightarrow> (r, emit (CloseSession s) w2)))"

section \<open>The CPU-bound batch (\<^verbatim>\<open>Concurrency.py\<close>, \<^verbatim>\<open>findSums\<close>)\<close>

text \<open>One invocation of \<^verbatim>\<open>sumOfSquares\<close>: the call is recorded, the value returned.\<close>

definition call_sumOfSquares :: "int \<Rightarrow> proc \<Rightarrow> (exn + pyval) \<times> proc" where
  "call_sumOfSquares number w =
     (Inr (PyInt (sumOfSquares number)), emit (Call (SumOfSquares number)) w)"

text \<open>
  \<^verbatim>\<open>def findSums(numbers):
      for number in numbers:
          sumOfSquares(number)\<close>
\<close>

definition findSums :: "int list \<Rightarrow> proc \<Rightarrow> (exn + pyval) \<times> proc" where
  "findSums numbers w = for_each call_sumOfSquares numbers w"

section \<open>Thread-pool download (\<^verbatim>\<open>URLDownloadMultiThreaded.py\<close>)\<close>

text \<open>
  \<^verbatim>\<open>def getSession():
      if not hasattr(threadLocal, "session"):
          threadLocal.session = requests.Session()
      return threadLocal.session\<close>
  The attribute looked up is the one of the running thread.
\<close>

definition getSession :: "proc \<Rightarrow> session \<times> proc" where
  "getSession w =
     (case threadLocal w (current_thread w) of
        None \<Rightarrow>
          (case Session w of
             (s, w1) \<Rightarrow> (s, w1\<lparr>threadLocal := (threadLocal w1)(current_thread w1 := Some s)\<rparr>))
      | Some s \<Rightarrow> (s, w))"

text \<open>
  \<^verbatim>\<open>def downloadSite(url):
      session = getSession()
      with session.get(url) as response:
          print(f"Read {len(response.content)} from {url}")\<close>
\<close>

definition downloadSite_threaded :: "network \<Rightarrow> url \<Rightarrow> proc \<Rightarrow> (exn + pyval) \<times> proc" where
  "downloadSite_threaded net u w =
     (case getSession (emit (Call (DownloadSite u)) w) of
        (s, w1) \<Rightarrow>
          (case session_get net s u w1 of
             (Inl e, w2) \<Rightarrow> (Inl e, w2)
           | (Inr response, w2) \<Rightarrow>
               (Inr PyNone,
                emit (Print (read_line (str_nat (content_len response)) u)) w2)))"

definition max_workers :: nat where
  "max_workers = 5"

text \<open>
  The library call \<^verbatim>\<open>executor.map(fn, items)\<close> of
  \<^verbatim>\<open>concurrent.futures.ThreadPoolExecutor(max_workers=5)\<close> submits one work item per
  element, in order, before it returns; each work item is taken from the queue by one of
  the pool's threads, which runs \<^verbatim>\<open>fn\<close> on it and stores the value or the exception in
  the item's future; leaving the \<^verbatim>\<open>with\<close> block waits for every work item. Which
  thread takes the \<open>i\<close>-th item is the scheduler's choice, the parameter \<open>sched\<close>. The
  pool's threads are new threads, numbered after those started before. The model runs
  the work items one after the other; only what each thread does, in its own order, and
  what does not depend on the interleaving is meant by it.
\<close>

fun run_work_items ::
  "(nat \<Rightarrow> nat) \<Rightarrow> thread \<Rightarrow> ('a \<Rightarrow> proc \<Rightarrow> (exn + pyval) \<times> proc) \<Rightarrow> 'a list \<Rightarrow> nat \<Rightarrow> proc
     \<Rightarrow> (exn + pyval) list \<times> proc" where
  "run_work_items sched base fn [] i w = ([], w)"
| "run_work_items sched base fn (x # xs) i w =
     (case fn x (w\<lparr>current_thread := base + sched i mod max_workers\<rparr>) of
        (r, w1) \<Rightarrow>
          (case run_work_items sched base fn xs (Suc i) w1 of
             (rs, w2) \<Rightarrow> (r # rs, w2)))"

text \<open>
  \<^verbatim>\<open>def downloadAllSites(sites):
      with concurrent.futures.ThreadPoolExecutor(max_workers=5) as executor:
          executor.map(downloadSite, sites)\<close>
  The iterator over the futures that \<^verbatim>\<open>map\<close> returns is dropped unread.
\<close>

definition downloadAllSites_threaded ::
  "(nat \<Rightarrow> nat) \<Rightarrow> network \<Rightarrow> url list \<Rightarrow> proc \<Rightarrow> (exn + pyval) \<times> proc" where
  "downloadAllSites_threaded sched net sites w =
     (case run_work_items sched (Suc (threads_started w)) (downloadSite_threaded net) sites 0
             (w\<lparr>threads_started := threads_started w + max_workers\<rparr>) of
        (futures, w1) \<Rightarrow> (Inr PyNone, w1\<lparr>current_thread := current_thread w\<rparr>))"

section \<open>Cooperative tasks (\<^verbatim>\<open>URLDownloadAsyncIO.py\<close>)\<close>

text \<open>
  \<^verbatim>\<open>async def downloadSite(session, url):
      async with session.get(url) as response:
          print("Read {0} from {1}".format(response.content_length, url))\<close>
  A task runs in two steps: from its start to the suspension inside
  \<^verbatim>\<open>session.get(url)\<close>, and from the arrival of the outcome to its end.
\<close>

definition downloadSite_async_start ::
  "network \<Rightarrow> session \<Rightarrow> url \<Rightarrow> proc \<Rightarrow> (exn + response) \<times> proc" where
  "downloadSite_async_start net s u w = session_get net s u (emit (Call (DownloadSite u)) w)"

definition downloadSite_async_finish ::
  "url \<Rightarrow> exn + response \<Rightarrow> proc \<Rightarrow> (exn + pyval) \<times> proc" where
  "downloadSite_async_finish u outcome w =
     (case outcome of
        Inl e \<Rightarrow> (Inl e, w)
      | Inr response \<Rightarrow>
          (Inr PyNone,
           emit (Print (read_line (str_opt (content_length response)) u)) w))"

text \<open>
  The loop \<^verbatim>\<open>for url in sites: task = asyncio.ensure_future(downloadSite(session, url));
  tasks.append(task)\<close>. \<^verbatim>\<open>ensure_future\<close> makes the task and schedules it; the task
  does not run before the coroutine that made it suspends.
\<close>

fun create_tasks :: "url list \<Rightarrow> (nat \<times> url) list \<Rightarrow> proc \<Rightarrow> (nat \<times> url) list \<times> proc" where
  "create_tasks [] tasks w = (tasks, w)"
| "create_tasks (u # us) tasks w =
     create_tasks us (tasks @ [(length tasks, u)]) (emit (TaskCreated (length tasks) u) w)"

text \<open>
  \<^verbatim>\<open>await asyncio.gather(*tasks, return_exceptions=True)\<close> suspends the coroutine until
  every task is done. The event loop first runs each scheduled task to its suspension,
  in the order of scheduling; then the outcomes arrive, in an order the network decides,
  and each arrival runs its task to the end. An exception that ends a task is that
  task's result in the gathered list.
\<close>

fun start_tasks ::
  "network \<Rightarrow> session \<Rightarrow> (nat \<times> url) list \<Rightarrow> proc \<Rightarrow> (url \<times> (exn + response)) list \<times> proc" where
  "start_tasks net s [] w = ([], w)"
| "start_tasks net s ((i, u) # ts) w =
     (case downloadSite_async_start net s u w of
        (outcome, w1) \<Rightarrow>
          (case start_tasks net s ts w1 of
             (ps, w2) \<Rightarrow> ((u, outcome) # ps, w2)))"

fun finish_tasks ::
  "nat list \<Rightarrow> (url \<times> (exn + response)) list \<Rightarrow> proc \<Rightarrow> (nat \<times> (exn + pyval)) list \<times> proc" where
  "finish_tasks [] pending w = ([], w)"
| "finish_tasks (i # arrivals) pending w =
     (if i < length pending then
        (case downloadSite_async_finish (fst (pending ! i)) (snd (pending ! i)) w of
           (r, w1) \<Rightarrow>
             (case finish_tasks arrivals pending w1 of
                (rs, w2) \<Rightarrow> ((i, r) # rs, w2)))
      else finish_tasks arrivals pending w)"

text \<open>
  The order of arrival among \<open>n\<close> tasks: the parameter \<open>order\<close>, cut down to the task
  numbers and to the first mention of each, followed by the tasks it does not mention. Every
  task's outcome arrives, once.
\<close>

definition arrival_order :: "nat list \<Rightarrow> nat \<Rightarrow> nat list" where
  "arrival_order order n =
     (let first = rev (remdups (rev (filter (\<lambda>i. i < n) order)))
      in first @ filter (\<lambda>i. i \<notin> set first) [0..<n])"

text \<open>
  \<^verbatim>\<open>async def downloadAllSites(sites):
      async with aiohttp.ClientSession() as session:
          tasks = []
          for url in sites:
              task = asyncio.ensure_future(downloadSite(session, url))
              tasks.append(task)
          await asyncio.gather(*tasks, return_exceptions=True)\<close>
\<close>

definition downloadAllSites_async ::
  "nat list \<Rightarrow> network \<Rightarrow> url list \<Rightarrow> proc \<Rightarrow> (exn + pyval) \<times> proc" where
  "downloadAllSites_async order net sites w =
     (case Session w of
        (s, w1) \<Rightarrow>
          (case create_tasks sites [] w1 of
             (tasks, w2) \<Rightarrow>
               (case start_tasks net s tasks w2 of
                  (pending, w3) \<Rightarrow>
                    (case finish_tasks (arrival_order order (length pending)) pending w3 of
                       (gathered, w4) \<Rightarrow> (Inr PyNone, emit (CloseSession s) w4)))))"

section \<open>Process pool (\<^verbatim>\<open>Concurrency.py\<close>)\<close>

text \<open>
  \<^verbatim>\<open>session = None
  def setGlobalSession():
      global session
      if not session:
          session = requests.Session()\<close>
  A session object is true, so \<^verbatim>\<open>not session\<close> holds exactly when the global is
  \<^verbatim>\<open>None\<close>.
\<close>

definition setGlobalSession :: "proc \<Rightarrow> proc" where
  "setGlobalSession w =
     (case global_session w of
        None \<Rightarrow> (case Session w of (s, w1) \<Rightarrow> w1\<lparr>global_session := Some s\<rparr>)
      | Some s \<Rightarrow> w)"

text \<open>
  \<^verbatim>\<open>def downloadSite(url):
      with session.get(url) as response:
          name = multiprocessing.current_process().name
          print(f"{name}:Read {len(response.content)} from {url}")\<close>
\<close>

definition downloadSite_mp :: "network \<Rightarrow> url \<Rightarrow> proc \<Rightarrow> (exn + pyval) \<times> proc" where
  "downloadSite_mp net u w =
     (case global_session w of
        None \<Rightarrow> (Inl AttributeError, emit (Call (DownloadSite u)) w)
      | Some s \<Rightarrow>
          (case session_get net s u (emit (Call (DownloadSite u)) w) of
             (Inl e, w1) \<Rightarrow> (Inl e, w1)
           | (Inr response, w1) \<Rightarrow>
               (Inr PyNone,
                emit (Print (process_name w1 @ '':'' @ read_line (str_nat (content_len response)) u))
                  w1)))"

text \<open>
  The library class \<^verbatim>\<open>multiprocessing.Pool(processes=None, initializer=f)\<close> starts
  \<^verbatim>\<open>os.cpu_count() or 1\<close> worker processes; each starts from the state of the
  module as the parent has it, runs \<^verbatim>\<open>f\<close> once, then serves tasks.
  \<^verbatim>\<open>pool.map(fn, items)\<close> cuts the items into chunks of
  \<open>ceil (len / (4 * workers))\<close> items; a task is one chunk, run by one worker
  as \<^verbatim>\<open>list(map(fn, chunk))\<close>, so an exception ends that chunk; the result is ready
  when every chunk is done, and \<^verbatim>\<open>map\<close> returns the list of values or raises the
  exception of the first failed chunk to report. Which worker takes the \<open>j\<close>-th chunk is the
  parameter \<open>sched\<close>, which failure reports first the parameter \<open>pick\<close>, the number of
  processors the parameter \<open>cpus\<close>. The pool is never empty, so the worker looked up for
  a chunk exists. The workers are named as the \<^verbatim>\<open>fork\<close> start method names them.
\<close>

definition pool_size :: "nat \<Rightarrow> nat" where
  "pool_size cpus = (if cpus = 0 then 1 else cpus)"

definition chunksize_of :: "nat \<Rightarrow> nat \<Rightarrow> nat" where
  "chunksize_of len workers =
     (if len mod (workers * 4) \<noteq> 0 then len div (workers * 4) + 1 else len div (workers * 4))"

function chunked :: "nat \<Rightarrow> 'a list \<Rightarrow> 'a list list" where
  "chunked n xs = (if n = 0 \<or> xs = [] then [] else take n xs # chunked n (drop n xs))"
  by pat_completeness auto
termination
  by (relation "measure (\<lambda>(n, xs). length xs)") auto

declare chunked.simps [simp del]

fun mapstar ::
  "('a \<Rightarrow> proc \<Rightarrow> (exn + pyval) \<times> proc) \<Rightarrow> 'a list \<Rightarrow> proc \<Rightarrow> (exn + pyval list) \<times> proc" where
  "mapstar fn [] w = (Inr [], w)"
| "mapstar fn (x # xs) w =
     (case fn x w of
        (Inl e, w1) \<Rightarrow> (Inl e, w1)
      | (Inr v, w1) \<Rightarrow>
          (case mapstar fn xs w1 of
             (Inl e, w2) \<Rightarrow> (Inl e, w2)
           | (Inr vs, w2) \<Rightarrow> (Inr (v # vs), w2)))"

definition start_worker :: "(proc \<Rightarrow> proc) \<Rightarrow> proc \<Rightarrow> nat \<Rightarrow> proc" where
  "start_worker initializer parent k =
     initializer (parent\<lparr>trace := [], current_thread := 0,
                          process_name := ''ForkPoolWorker-'' @ str_nat (Suc k)\<rparr>)"

fun run_chunks ::
  "(nat \<Rightarrow> nat) \<Rightarrow> ('a \<Rightarrow> proc \<Rightarrow> (exn + pyval) \<times> proc) \<Rightarrow> 'a list list \<Rightarrow> nat \<Rightarrow> proc list
     \<Rightarrow> (exn + pyval list) list \<times> proc list" where
  "run_chunks sched fn [] j ws = ([], ws)"
| "run_chunks sched fn (c # cs) j ws =
     (case mapstar fn c (ws ! (sched j mod length ws)) of
        (r, w1) \<Rightarrow>
          (case run_chunks sched fn cs (Suc j) (ws[sched j mod length ws := w1]) of
             (rs, ws1) \<Rightarrow> (r # rs, ws1)))"

fun failure_of :: "exn + 'a \<Rightarrow> exn option" where
  "failure_of (Inl e) = Some e"
| "failure_of (Inr v) = None"

fun value_of :: "exn + 'a \<Rightarrow> 'a option" where
  "value_of (Inl e) = None"
| "value_of (Inr v) = Some v"

definition pool_map ::
  "(nat \<Rightarrow> nat) \<Rightarrow> nat \<Rightarrow> nat \<Rightarrow> (proc \<Rightarrow> proc) \<Rightarrow> ('a \<Rightarrow> proc \<Rightarrow> (exn + pyval) \<times> proc) \<Rightarrow> 'a list
     \<Rightarrow> proc \<Rightarrow> (exn + pyval) \<times> proc list" where
  "pool_map sched pick cpus initializer fn items parent =
     (case run_chunks sched fn
             (chunked (chunksize_of (length items) (pool_size cpus)) items) 0
             (map (start_worker initializer parent) [0..<pool_size cpus]) of
        (results, workers) \<Rightarrow>
          (case List.map_filter failure_of results of
             [] \<Rightarrow> (Inr (PyList (concat (List.map_filter value_of results))), workers)
           | e # es \<Rightarrow> (Inl ((e # es) ! (pick mod length (e # es))), workers)))"

text \<open>
  \<^verbatim>\<open>def downloadAllSites(sites):
      with multiprocessing.Pool(initializer=setGlobalSession) as pool:
          pool.map(downloadSite, sites)\<close>
  The parent's own state is not changed; the result carries the final states of the
  workers.
\<close>

definition downloadAllSites_mp ::
  "(nat \<Rightarrow> nat) \<Rightarrow> nat \<Rightarrow> nat \<Rightarrow> network \<Rightarrow> url list \<Rightarrow> proc \<Rightarrow> (exn + pyval) \<times> proc list" where
  "downloadAllSites_mp sched pick cpus net sites parent =
     (case pool_map sched pick cpus setGlobalSession (downloadSite_mp net) sites parent of
        (Inl e, workers) \<Rightarrow> (Inl e, workers)
      | (Inr v, workers) \<Rightarrow> (Inr PyNone, workers))"

text \<open>
  \<^verbatim>\<open>def findSumsMultiProcessing(numbers):
      with multiprocessing.Pool() as pool:
          pool.map(sumOfSquares, numbers)\<close>
\<close>

definition findSumsMultiProcessing ::
  "(nat \<Rightarrow> nat) \<Rightarrow> nat \<Rightarrow> nat \<Rightarrow> int list \<Rightarrow> proc \<Rightarrow> (exn + pyval) \<times> proc list" where
  "findSumsMultiProcessing sched pick cpus numbers parent =
     (case pool_map sched pick cpus (\<lambda>w. w) call_sumOfSquares numbers parent of
        (Inl e, workers) \<Rightarrow> (Inl e, workers)
      | (Inr v, workers) \<Rightarrow> (Inr PyNone, workers))"

section \<open>The test drivers\<close>

text \<open>
  Each driver builds its work list, runs its batch runner between two readings of the
  clock and prints the elapsed time. Wall-clock time is not modelled: the formatted
  duration is a parameter, and the \<^verbatim>\<open>time.sleep(3)\<close> of the asyncio driver has no
  counterpart. The drivers of \<^verbatim>\<open>Concurrency.py\<close> do nothing unless the
  module runs as the main program (\<^verbatim>\<open>if __name__ == "__main__"\<close>), the parameter
  \<open>main\<close>.
\<close>

definition testConcurrency1_sites :: "url list" where
  "testConcurrency1_sites =
     list_times [''https://www.jython.org'', ''http://olympus.realpython.org/dice''] 80"



definition testConcurrency4_sites :: "url list" where
  "testConcurrency4_sites =
     list_times [''https://www.jython.org'', ''http://olympus.realpython.org/dice''] 80"


definition testConcurrency1IOBoundSynchronous ::
  "network \<Rightarrow> string \<Rightarrow> proc \<Rightarrow> (exn + pyval) \<times> proc" where
  "testConcurrency1IOBoundSynchronous net duration w =
     (case downloadAllSites_sync net testConcurrency1_sites w of
        (Inl e, w1) \<Rightarrow> (Inl e, w1)
      | (Inr v, w1) \<Rightarrow>
          (Inr PyNone,
           emit (Print (nl @ ''PERFORMANCE: Downloaded '' @ str_nat (length testConcurrency1_sites)
                        @ '' in '' @ duration @ '' seconds'')) w1))"



definition testConcurrency4IOBoundMultiProcessing ::
  "bool \<Rightarrow> (nat \<Rightarrow> nat) \<Rightarrow> nat \<Rightarrow> nat \<Rightarrow> network \<Rightarrow> string \<Rightarrow> proc
     \<Rightarrow> (exn + pyval) \<times> proc \<times> proc list" where
  "testConcurrency4IOBoundMultiProcessing main sched pick cpus net duration w =
     (if main then
        (case downloadAllSites_mp sched pick cpus net testConcurrency4_sites w of
           (Inl e, workers) \<Rightarrow> (Inl e, w, workers)
         | (Inr v, workers) \<Rightarrow>
             (Inr PyNone,
              emit (Print (nl @ ''PERFORMANCE: Downloaded ''
                           @ str_nat (length testConcurrency4_sites)
                           @ '' in '' @ duration @ '' seconds'')) w,
              workers))
      else (Inr PyNone, w, []))"



text \<open>The interpreter as the program starts: nothing written, no session made.\<close>

definition initial_proc :: proc where
  "initial_proc =
     \<lparr>trace = [], current_thread = 0, threads_started = 0, process_name = ''MainProcess'',
      sessions_created = 0, global_session = None, threadLocal = (\<lambda>t. None)\<rparr>"

text \<open>What a run adds to a trace: the events after those that were there before.\<close>

definition added :: "proc \<Rightarrow> proc \<Rightarrow> (thread \<times> event) list" where
  "added w w1 = drop (length (trace w)) (trace w1)"

text \<open>The number of sessions a thread constructs in a stretch of trace.\<close>

definition sessions_made_by :: "thread \<Rightarrow> (thread \<times> event) list \<Rightarrow> nat" where
  "sessions_made_by t evs =
     length (filter (\<lambda>x. fst x = t \<and> the_new (snd x) \<noteq> None) evs)"

text \<open>
  The line a suspended task prints when its outcome arrives, if the outcome is a
  response; nothing for an exception or for a number that is no task.
\<close>

definition finish_line :: "(url \<times> (exn + response)) list \<Rightarrow> nat \<Rightarrow> string option" where
  "finish_line pending i =
     (if i < length pending then
        (case snd (pending ! i) of
           Inl e \<Rightarrow> None
         | Inr response \<Rightarrow>
             Some (read_line (str_opt (content_length response)) (fst (pending ! i))))
      else None)"

text \<open>
  The same line in terms of the network: in \<^verbatim>\<open>downloadAllSites\<close> of the asyncio
  module, started in state \<open>w\<close>, the request of task \<open>i\<close> is issued after the session
  is made, the \<open>n\<close> tasks are created and the \<open>i\<close> tasks before it have started.
\<close>

definition async_line :: "network \<Rightarrow> proc \<Rightarrow> url list \<Rightarrow> nat \<Rightarrow> string option" where
  "async_line net w sites i =
     (if i < length sites then
        (case net (process_name w) (sites ! i) (length (trace w) + length sites + 2 * i + 2) of
           Inl e \<Rightarrow> None
         | Inr response \<Rightarrow> Some (read_line (str_opt (content_length response)) (sites ! i)))
      else None)"

text \<open>
  Two networks for concrete runs: one where every request gets a three-byte response, one
  where the requests for one URL are refused.
\<close>

definition all_up :: network where
  "all_up p u t = Inr \<lparr>content_len = 3, content_length = Some 3\<rparr>"

definition down_for :: "url \<Rightarrow> network" where
  "down_for bad p u t =
     (if u = bad then Inl (RequestException ''connection refused'')
      else Inr \<lparr>content_len = 3, content_length = Some 3\<rparr>)"

text \<open>
  A worker process that holds the session \<open>s0\<close> in its global, has made that session
  and no other, and has issued every request through it.
\<close>

definition one_session :: "session \<Rightarrow> proc \<Rightarrow> bool" where
  "one_session s0 w \<longleftrightarrow>
     global_session w = Some s0 \<and> sessions_created w = Suc s0 \<and>
     List.map_filter the_new (events w) = [s0] \<and>
     (\<forall>t s u. (t, Get s u) \<in> set (trace w) \<longrightarrow> s = s0)"

section \<open>Properties of \<^verbatim>\<open>sumOfSquares\<close>\<close>

lemma set_range_py: "set (range_py n) = {0..<n}"
  by (auto simp: range_py_def)

lemma sumOfSquares_sum: "sumOfSquares n = (\<Sum>i = 0..<n. i * i)"
  unfolding sumOfSquares_def
  by (simp add: interv_sum_list_conv_sum_set_int range_py_def atLeastLessThan_def
      atLeastAtMost_def) (rule sum.cong, auto)

lemma sumOfSquares_step: "0 \<le> n \<Longrightarrow> sumOfSquares (n + 1) = sumOfSquares n + n * n"
  unfolding sumOfSquares_def range_py_def
  by (simp add: upto_rec2)

lemma sumOfSquares_closed6: "0 \<le> n \<Longrightarrow> 6 * sumOfSquares n = n * (n - 1) * (2 * n - 1)"
proof (induction n rule: int_ge_induct)
  case base
  show ?case by (simp add: sumOfSquares_def range_py_def)
next
  case (step i)
  have "6 * sumOfSquares (i + 1) = 6 * sumOfSquares i + 6 * (i * i)"
    using sumOfSquares_step [OF step.hyps] by simp
  also have "\<dots> = i * (i - 1) * (2 * i - 1) + 6 * (i * i)"
    using step.IH by simp
  also have "\<dots> = (i + 1) * (i + 1 - 1) * (2 * (i + 1) - 1)"
    by (simp add: algebra_simps)
  finally show ?case .
qed

text \<open>
  Claim C6. For every non-negative integer \<open>n\<close>, \<^verbatim>\<open>sumOfSquares(n)\<close> is the sum of
  \<open>i * i\<close> for \<open>i\<close> from \<open>0\<close> to \<open>n - 1\<close>, which is \<open>n (n - 1) (2 n - 1) / 6\<close>; a call
  returns that value and has no side effect: the only event of the call is the record of
  the invocation itself, and nothing else of the state changes.
\<close>

theorem sumOfSquares_spec:
  "0 \<le> n \<Longrightarrow>
     sumOfSquares n = (\<Sum>i = 0..<n. i * i) \<and>
     sumOfSquares n = n * (n - 1) * (2 * n - 1) div 6 \<and>
     fst (call_sumOfSquares n w) = Inr (PyInt (sumOfSquares n)) \<and>
     added w (snd (call_sumOfSquares n w)) = [(current_thread w, Call (SumOfSquares n))] \<and>
     (snd (call_sumOfSquares n w))\<lparr>trace := trace w\<rparr> = w"
  using sumOfSquares_closed6 [of n] sumOfSquares_sum [of n]
  by (simp add: call_sumOfSquares_def added_def emit_def)

theorem sumOfSquares_spec_witness:
  "(0::int) \<le> 4 \<and> sumOfSquares 4 = 14"
  using sumOfSquares_spec [of 4, THEN conjunct2, THEN conjunct1] by simp

section \<open>Properties of the menu loop\<close>

lemma loop_quit [simp]: "getProcessSelection_loop ''q'' inp out = (Inr ''q'', inp, out)"
  by (simp add: getProcessSelection_loop.simps)

lemma loop_eof [simp]:
  "s \<noteq> ''q'' \<Longrightarrow>
     getProcessSelection_loop s [] out = (Inl EOFError, [], out @ [menu_text, prompt_text])"
  by (simp add: getProcessSelection_loop.simps)

lemma loop_line [simp]:
  "s \<noteq> ''q'' \<Longrightarrow>
     getProcessSelection_loop s (line # rest) out =
       (if line \<notin> set selections then
          (if line \<noteq> ''q''
           then getProcessSelection_loop line rest (out @ [menu_text, prompt_text, invalid_text])
           else (Inr ''q'', rest, out @ [menu_text, prompt_text]))
        else (Inr line, rest, out @ [menu_text, prompt_text]))"
  by (subst getProcessSelection_loop.simps) simp

lemma loop_out:
  "getProcessSelection_loop s inp out =
     (case getProcessSelection_loop s inp [] of (r, rest, out') \<Rightarrow> (r, rest, out @ out'))"
proof (induction inp arbitrary: s out)
  case Nil
  then show ?case by (cases "s = ''q''") simp_all
next
  case (Cons a inp)
  show ?case
  proof (cases "s = ''q''")
    case True
    then show ?thesis by simp
  next
    case False
    show ?thesis
      using False
      by (simp add: Cons.IH [of a "out @ [menu_text, prompt_text, invalid_text]"]
          Cons.IH [of a "[menu_text, prompt_text, invalid_text]"] split: prod.splits)
  qed
qed

lemma loop_fst:
  "s \<noteq> ''q'' \<Longrightarrow> fst (getProcessSelection_loop s inp out) =
     (case dropWhile (\<lambda>x. \<not> accepted x) inp of [] \<Rightarrow> Inl EOFError | x # rest \<Rightarrow> Inr x)"
  by (induction inp arbitrary: s out) (auto simp: accepted_def)

lemma loop_rest:
  "s \<noteq> ''q'' \<Longrightarrow> fst (snd (getProcessSelection_loop s inp out)) =
     (case dropWhile (\<lambda>x. \<not> accepted x) inp of [] \<Rightarrow> [] | x # rest \<Rightarrow> rest)"
  by (induction inp arbitrary: s out) (auto simp: accepted_def)

lemma loop_reprompt:
  assumes "\<not> accepted x"
  shows "getProcessSelection (x # inp) =
     (case getProcessSelection inp of
        (r, rest, out) \<Rightarrow> (r, rest, [menu_text, prompt_text, invalid_text] @ out))"
proof -
  from assms have x: "x \<notin> set selections" "x \<noteq> ''q''" by (auto simp: accepted_def)
  have "getProcessSelection (x # inp) =
      getProcessSelection_loop x inp [menu_text, prompt_text, invalid_text]"
    using x by (simp add: getProcessSelection_def)
  also have "\<dots> = (case getProcessSelection_loop x inp [] of
        (r, rest, out) \<Rightarrow> (r, rest, [menu_text, prompt_text, invalid_text] @ out))"
    by (rule loop_out)
  also have "getProcessSelection_loop x inp [] = getProcessSelection_loop [] inp []"
    using x(2) by (cases inp) simp_all
  finally show ?thesis by (simp add: getProcessSelection_def)
qed

text \<open>
  Claim C8. Whatever lines are typed, \<^verbatim>\<open>getProcessSelection\<close> returns only one of
  \<^verbatim>\<open>'1'\<close>, ..., \<^verbatim>\<open>'6'\<close> or \<^verbatim>\<open>'q'\<close>: it returns the first such line of the input and
  leaves the lines after it unread; a line outside this set makes it print the invalid
  notice and prompt again, continuing as on the rest of the input. When the input ends
  before such a line, \<^verbatim>\<open>input\<close> raises \<^verbatim>\<open>EOFError\<close> and nothing is returned.
\<close>

theorem getProcessSelection_spec:
  "(\<forall>s. fst (getProcessSelection inp) = Inr s \<longrightarrow>
        s \<in> {''1'', ''2'', ''3'', ''4'', ''5'', ''6'', ''q''}) \<and>
   fst (getProcessSelection inp) =
     (case dropWhile (\<lambda>x. \<not> accepted x) inp of [] \<Rightarrow> Inl EOFError | x # rest \<Rightarrow> Inr x) \<and>
   fst (snd (getProcessSelection inp)) =
     (case dropWhile (\<lambda>x. \<not> accepted x) inp of [] \<Rightarrow> [] | x # rest \<Rightarrow> rest) \<and>
   (x \<notin> {''1'', ''2'', ''3'', ''4'', ''5'', ''6'', ''q''} \<longrightarrow>
      getProcessSelection (x # inp) =
        (case getProcessSelection inp of
           (r, rest, out) \<Rightarrow> (r, rest, [menu_text, prompt_text, invalid_text] @ out)))"
proof -
  have acc: "\<And>y. accepted y = (y \<in> {''1'', ''2'', ''3'', ''4'', ''5'', ''6'', ''q''})"
    by (auto simp: accepted_def selections_def)
  have f: "fst (getProcessSelection inp) =
     (case dropWhile (\<lambda>x. \<not> accepted x) inp of [] \<Rightarrow> Inl EOFError | x # rest \<Rightarrow> Inr x)"
    by (simp add: getProcessSelection_def loop_fst)
  have r: "fst (snd (getProcessSelection inp)) =
     (case dropWhile (\<lambda>x. \<not> accepted x) inp of [] \<Rightarrow> [] | x # rest \<Rightarrow> rest)"
    by (simp add: getProcessSelection_def loop_rest)
  have a: "\<forall>s. fst (getProcessSelection inp) = Inr s \<longrightarrow> accepted s"
  proof (intro allI impI)
    fix s assume "fst (getProcessSelection inp) = Inr s"
    with f obtain rest where "dropWhile (\<lambda>x. \<not> accepted x) inp = s # rest"
      by (auto split: list.splits)
    then show "accepted s" by (simp add: dropWhile_eq_Cons_conv)
  qed
  show ?thesis
    using f r a loop_reprompt [of x inp] unfolding acc by blast
qed

theorem getProcessSelection_spec_witness:
  "fst (getProcessSelection [''7'', ''3'', ''q'']) = Inr ''3'' \<and>
   ''3'' \<in> {''1'', ''2'', ''3'', ''4'', ''5'', ''6'', ''q''} \<and>
   fst (snd (getProcessSelection [''7'', ''3'', ''q''])) = [''q''] \<and>
   ''7'' \<notin> {''1'', ''2'', ''3'', ''4'', ''5'', ''6'', ''q''} \<and>
   getProcessSelection (''7'' # [''3'', ''q'']) =
     (case getProcessSelection [''3'', ''q''] of
        (r, rest, out) \<Rightarrow> (r, rest, [menu_text, prompt_text, invalid_text] @ out))"
  using getProcessSelection_spec [of "[''7'', ''3'', ''q'']" "''7''"]
    getProcessSelection_spec [of "[''3'', ''q'']" "''7''"]
  by (simp add: accepted_def selections_def)

section \<open>Basic facts about effects\<close>

lemma emit_fields [simp]:
  "trace (emit e w) = trace w @ [(current_thread w, e)]"
  "current_thread (emit e w) = current_thread w"
  "threads_started (emit e w) = threads_started w"
  "process_name (emit e w) = process_name w"
  "sessions_created (emit e w) = sessions_created w"
  "global_session (emit e w) = global_session w"
  "threadLocal (emit e w) = threadLocal w"
  by (simp_all add: emit_def)

lemma map_filter_append: "List.map_filter f (xs @ ys) = List.map_filter f xs @ List.map_filter f ys"
  by (simp add: List.map_filter_def)

lemma calls_emit [simp]:
  "calls (emit e w) = calls w @ (case the_call e of None \<Rightarrow> [] | Some c \<Rightarrow> [c])"
  by (cases e) (simp_all add: calls_def events_def map_filter_append List.map_filter_simps)

lemma gets_emit [simp]:
  "gets (emit e w) = gets w @ (case the_get e of None \<Rightarrow> [] | Some u \<Rightarrow> [u])"
  by (cases e) (simp_all add: gets_def events_def map_filter_append List.map_filter_simps)

lemma prints_emit [simp]:
  "prints (emit e w) = prints w @ (case the_print e of None \<Rightarrow> [] | Some l \<Rightarrow> [l])"
  by (cases e) (simp_all add: prints_def events_def map_filter_append List.map_filter_simps)

lemma Session_eq:
  "Session w = (sessions_created w, emit (NewSession (sessions_created w)) (w\<lparr>sessions_created := Suc (sessions_created w)\<rparr>))"
  by (simp add: Session_def Let_def)

lemma proj_sessions_created_update [simp]:
  "calls (w\<lparr>sessions_created := n\<rparr>) = calls w"
  "gets (w\<lparr>sessions_created := n\<rparr>) = gets w"
  "prints (w\<lparr>sessions_created := n\<rparr>) = prints w"
  by (simp_all add: calls_def gets_def prints_def events_def)

section \<open>Properties of the sequential runners\<close>


lemma downloadSite_sync_cases:
  assumes "downloadSite_sync net u s w = (r, w1)"
  shows "calls w1 = calls w @ [DownloadSite u] \<and> gets w1 = gets w @ [u] \<and>
         ((\<exists>n. r = Inr PyNone \<and> prints w1 = prints w @ [read_line (str_nat n) u]) \<or>
          (\<exists>e. r = Inl e \<and> prints w1 = prints w))"
  using assms
  by (auto simp: downloadSite_sync_def session_get_def split: prod.splits sum.splits)

lemma for_each_sync:
  assumes "for_each (\<lambda>u. downloadSite_sync net u s) sites w = (r, w1)"
  shows "\<exists>k ns. k \<le> length sites \<and>
           calls w1 = calls w @ map DownloadSite (take k sites) \<and>
           gets w1 = gets w @ take k sites \<and>
           prints w1 = prints w @ map2 (\<lambda>n u. read_line (str_nat n) u) ns sites \<and>
           ((r = Inr PyNone \<and> k = length sites \<and> length ns = k) \<or>
            (\<exists>e. r = Inl e) \<and> Suc (length ns) = k)"
  using assms
proof (induction sites arbitrary: w)
  case Nil
  then show ?case by (intro exI [of _ 0] exI [of _ "[]"]) auto
next
  case (Cons u sites)
  obtain r0 w0 where step: "downloadSite_sync net u s w = (r0, w0)"
    by (cases "downloadSite_sync net u s w")
  from downloadSite_sync_cases [OF step]
  have c: "calls w0 = calls w @ [DownloadSite u]" and g: "gets w0 = gets w @ [u]"
    and p: "(\<exists>n. r0 = Inr PyNone \<and> prints w0 = prints w @ [read_line (str_nat n) u]) \<or>
          (\<exists>e. r0 = Inl e \<and> prints w0 = prints w)"
    by auto
  from p show ?case
  proof
    assume "\<exists>n. r0 = Inr PyNone \<and> prints w0 = prints w @ [read_line (str_nat n) u]"
    then obtain n where r0: "r0 = Inr PyNone"
      and p0: "prints w0 = prints w @ [read_line (str_nat n) u]" by blast
    from Cons.prems step r0
    have "for_each (\<lambda>u. downloadSite_sync net u s) sites w0 = (r, w1)" by simp
    from Cons.IH [OF this] obtain k ns where
      k: "k \<le> length sites"
      and c1: "calls w1 = calls w0 @ map DownloadSite (take k sites)"
      and g1: "gets w1 = gets w0 @ take k sites"
      and p1: "prints w1 = prints w0 @ map2 (\<lambda>n u. read_line (str_nat n) u) ns sites"
      and e1: "(r = Inr PyNone \<and> k = length sites \<and> length ns = k) \<or>
            (\<exists>e. r = Inl e) \<and> Suc (length ns) = k" by blast
    show ?thesis
      using k c1 g1 p1 e1 c g p0
      by (intro exI [of _ "Suc k"] exI [of _ "n # ns"]) auto
  next
    assume "\<exists>e. r0 = Inl e \<and> prints w0 = prints w"
    then obtain e where r0: "r0 = Inl e" and p0: "prints w0 = prints w" by blast
    from Cons.prems step r0 have "r = Inl e" "w1 = w0" by simp_all
    then show ?thesis
      using c g p0
      by (intro exI [of _ "Suc 0"] exI [of _ "[]"]) auto
  qed
qed

lemma downloadAllSites_sync_spec:
  assumes "downloadAllSites_sync net sites w = (r, w1)"
  shows "\<exists>k ns. k \<le> length sites \<and>
           calls w1 = calls w @ map DownloadSite (take k sites) \<and>
           gets w1 = gets w @ take k sites \<and>
           prints w1 = prints w @ map2 (\<lambda>n u. read_line (str_nat n) u) ns sites \<and>
           ((r = Inr PyNone \<and> k = length sites \<and> length ns = k) \<or>
            (\<exists>e. r = Inl e) \<and> Suc (length ns) = k)"
proof -
  let ?w0 = "emit (NewSession (sessions_created w)) (w\<lparr>sessions_created := Suc (sessions_created w)\<rparr>)"
  obtain r0 w2 where fe: "for_each (\<lambda>u. downloadSite_sync net u (sessions_created w)) sites ?w0 = (r0, w2)"
    by (cases "for_each (\<lambda>u. downloadSite_sync net u (sessions_created w)) sites ?w0")
  with assms have r: "r = r0" and w1: "w1 = emit (CloseSession (sessions_created w)) w2"
    by (simp_all add: downloadAllSites_sync_def Session_eq)
  from for_each_sync [OF fe] show ?thesis
    unfolding r w1 by simp
qed

lemma findSums_spec:
  "findSums numbers w = (r, w1) \<Longrightarrow> r = Inr PyNone \<and> calls w1 = calls w @ map SumOfSquares numbers
      \<and> prints w1 = prints w \<and> gets w1 = gets w"
  unfolding findSums_def
  by (induction numbers arbitrary: w) (auto simp: call_sumOfSquares_def)

section \<open>The trace of a sequential run\<close>




section \<open>Properties of the thread pool\<close>


lemma getSession_set:
  "threadLocal w (current_thread w) = Some s \<Longrightarrow> getSession w = (s, w)"
  by (simp add: getSession_def)

lemma getSession_unset:
  "threadLocal w (current_thread w) = None \<Longrightarrow>
     getSession w =
       (sessions_created w,
        (emit (NewSession (sessions_created w)) (w\<lparr>sessions_created := Suc (sessions_created w)\<rparr>))
          \<lparr>threadLocal := (threadLocal w)(current_thread w := Some (sessions_created w))\<rparr>)"
  by (simp add: getSession_def Session_eq)

lemma getSession_idem: "getSession w = (s, w1) \<Longrightarrow> getSession w1 = (s, w1)"
  by (cases "threadLocal w (current_thread w)") (auto simp: getSession_unset getSession_set)

lemma sessions_made_by_simps [simp]:
  "sessions_made_by t [] = 0"
  "sessions_made_by t (x # xs) = (if fst x = t \<and> the_new (snd x) \<noteq> None then 1 else 0) + sessions_made_by t xs"
  "sessions_made_by t (xs @ ys) = sessions_made_by t xs + sessions_made_by t ys"
  by (simp_all add: sessions_made_by_def)

lemma downloadSite_threaded_step:
  assumes "downloadSite_threaded net u w = (r, w1)"
  shows "\<exists>X. trace w1 = trace w @ X \<and>
           (\<forall>x \<in> set X. fst x = current_thread w) \<and>
           (\<forall>t s v. (t, Get s v) \<in> set X \<longrightarrow> threadLocal w1 t = Some s) \<and>
           (\<forall>t. sessions_made_by t X =
                  (if t = current_thread w \<and> threadLocal w t = None then 1 else 0)) \<and>
           (\<forall>t. threadLocal w t \<noteq> None \<longrightarrow> threadLocal w1 t = threadLocal w t) \<and>
           (\<forall>t. t \<noteq> current_thread w \<longrightarrow> threadLocal w1 t = threadLocal w t) \<and>
           threadLocal w1 (current_thread w) \<noteq> None \<and>
           sessions_created w1 = sessions_created w + length (filter (\<lambda>x. the_new (snd x) \<noteq> None) X) \<and>
           List.map_filter the_call (map snd X) = [DownloadSite u] \<and>
           current_thread w1 = current_thread w \<and> threads_started w1 = threads_started w \<and>
           (r = Inr PyNone \<or> (\<exists>e. r = Inl e))"
proof (cases "threadLocal w (current_thread w)")
  case None
  then have gs: "getSession (emit (Call (DownloadSite u)) w) =
       (sessions_created w,
        (emit (NewSession (sessions_created w)) ((emit (Call (DownloadSite u)) w)\<lparr>sessions_created := Suc (sessions_created w)\<rparr>))
          \<lparr>threadLocal := (threadLocal w)(current_thread w := Some (sessions_created w))\<rparr>)"
    using getSession_unset [of "emit (Call (DownloadSite u)) w"] by simp
  show ?thesis
    using assms None unfolding downloadSite_threaded_def gs
    by (auto simp: session_get_def List.map_filter_simps emit_def split: sum.splits)
next
  case (Some s)
  then have gs: "getSession (emit (Call (DownloadSite u)) w) = (s, emit (Call (DownloadSite u)) w)"
    using getSession_set [of "emit (Call (DownloadSite u)) w" s] by simp
  show ?thesis
    using assms Some unfolding downloadSite_threaded_def gs
    by (auto simp: session_get_def List.map_filter_simps emit_def split: sum.splits)
qed

lemma run_work_items_threaded:
  assumes "run_work_items sched base (downloadSite_threaded net) items i w = (rs, w')"
  shows "\<exists>X. trace w' = trace w @ X \<and>
     (\<forall>x \<in> set X. base \<le> fst x \<and> fst x < base + max_workers) \<and>
     (\<forall>t s v. (t, Get s v) \<in> set X \<longrightarrow> threadLocal w' t = Some s) \<and>
     (\<forall>t. sessions_made_by t X \<le> (if threadLocal w t = None then 1 else 0)) \<and>
     (\<forall>t. threadLocal w t \<noteq> None \<longrightarrow> threadLocal w' t = threadLocal w t) \<and>
     sessions_created w' = sessions_created w + length (filter (\<lambda>x. the_new (snd x) \<noteq> None) X) \<and>
     List.map_filter the_call (map snd X) = map DownloadSite items \<and>
     threads_started w' = threads_started w \<and> length rs = length items \<and>
     (\<forall>r \<in> set rs. r = Inr PyNone \<or> (\<exists>e. r = Inl e))"
  using assms
proof (induction items arbitrary: i w rs w')
  case Nil
  then show ?case by (simp add: List.map_filter_simps)
next
  case (Cons u items)
  let ?t = "base + sched i mod max_workers"
  let ?w = "w\<lparr>current_thread := ?t\<rparr>"
  obtain r1 w1 where step: "downloadSite_threaded net u ?w = (r1, w1)"
    by (cases "downloadSite_threaded net u ?w")
  obtain rs2 w2 where rest: "run_work_items sched base (downloadSite_threaded net) items (Suc i) w1 = (rs2, w2)"
    by (cases "run_work_items sched base (downloadSite_threaded net) items (Suc i) w1")
  from Cons.prems step rest have rs: "rs = r1 # rs2" and w': "w' = w2" by simp_all
  from downloadSite_threaded_step [OF step] obtain X1 where
    t1: "trace w1 = trace w @ X1"
    and th1: "\<forall>x \<in> set X1. fst x = ?t"
    and g1: "\<forall>t s v. (t, Get s v) \<in> set X1 \<longrightarrow> threadLocal w1 t = Some s"
    and m1: "\<forall>t. sessions_made_by t X1 = (if t = ?t \<and> threadLocal w t = None then 1 else 0)"
    and mono1: "\<forall>t. threadLocal w t \<noteq> None \<longrightarrow> threadLocal w1 t = threadLocal w t"
    and set1: "threadLocal w1 ?t \<noteq> None"
    and sc1: "sessions_created w1 = sessions_created w + length (filter (\<lambda>x. the_new (snd x) \<noteq> None) X1)"
    and c1: "List.map_filter the_call (map snd X1) = [DownloadSite u]"
    and ts1: "threads_started w1 = threads_started w"
    and r1: "r1 = Inr PyNone \<or> (\<exists>e. r1 = Inl e)"
    by auto
  from Cons.IH [OF rest] obtain X2 where
    t2: "trace w2 = trace w1 @ X2"
    and th2: "\<forall>x \<in> set X2. base \<le> fst x \<and> fst x < base + max_workers"
    and g2: "\<forall>t s v. (t, Get s v) \<in> set X2 \<longrightarrow> threadLocal w2 t = Some s"
    and m2: "\<forall>t. sessions_made_by t X2 \<le> (if threadLocal w1 t = None then 1 else 0)"
    and mono2: "\<forall>t. threadLocal w1 t \<noteq> None \<longrightarrow> threadLocal w2 t = threadLocal w1 t"
    and sc2: "sessions_created w2 = sessions_created w1 + length (filter (\<lambda>x. the_new (snd x) \<noteq> None) X2)"
    and c2: "List.map_filter the_call (map snd X2) = map DownloadSite items"
    and ts2: "threads_started w2 = threads_started w1"
    and l2: "length rs2 = length items"
    and r2: "\<forall>r \<in> set rs2. r = Inr PyNone \<or> (\<exists>e. r = Inl e)"
    by blast
  have lt: "sched i mod max_workers < max_workers" by (simp add: max_workers_def)
  have a: "trace w' = trace w @ (X1 @ X2)" using t1 t2 w' by simp
  have b: "\<forall>x \<in> set (X1 @ X2). base \<le> fst x \<and> fst x < base + max_workers"
    using th1 th2 lt by auto
  have c: "\<forall>t s v. (t, Get s v) \<in> set (X1 @ X2) \<longrightarrow> threadLocal w' t = Some s"
  proof (intro allI impI)
    fix t s v assume "(t, Get s v) \<in> set (X1 @ X2)"
    then consider "(t, Get s v) \<in> set X1" | "(t, Get s v) \<in> set X2" by auto
    then show "threadLocal w' t = Some s"
    proof cases
      case 1
      with g1 have "threadLocal w1 t = Some s" by blast
      with mono2 show ?thesis unfolding w' by simp
    next
      case 2
      with g2 show ?thesis unfolding w' by blast
    qed
  qed
  have d: "\<forall>t. sessions_made_by t (X1 @ X2) \<le> (if threadLocal w t = None then 1 else 0)"
  proof
    fix t
    show "sessions_made_by t (X1 @ X2) \<le> (if threadLocal w t = None then 1 else 0)"
    proof (cases "t = ?t \<and> threadLocal w t = None")
      case True
      then have "sessions_made_by t X1 = 1" using m1 [rule_format, of t] by auto
      moreover have "sessions_made_by t X2 = 0" using m2 [rule_format, of t] set1 True by auto
      moreover from True have "threadLocal w t = None" by blast
      ultimately show ?thesis by simp
    next
      case False
      then have "sessions_made_by t X1 = 0" using m1 [rule_format, of t] by auto
      moreover have "sessions_made_by t X2 \<le> (if threadLocal w t = None then 1 else 0)"
        using m2 [rule_format, of t] mono1 [rule_format, of t] by (auto split: if_splits)
      ultimately show ?thesis by simp
    qed
  qed
  have e: "\<forall>t. threadLocal w t \<noteq> None \<longrightarrow> threadLocal w' t = threadLocal w t"
    using mono1 mono2 unfolding w' by metis
  have f: "sessions_created w' = sessions_created w + length (filter (\<lambda>x. the_new (snd x) \<noteq> None) (X1 @ X2))"
    using sc1 sc2 unfolding w' by simp
  have g: "List.map_filter the_call (map snd (X1 @ X2)) = map DownloadSite (u # items)"
    using c1 c2 by (simp add: map_filter_append)
  have h: "threads_started w' = threads_started w" "length rs = length (u # items)"
       "\<forall>r \<in> set rs. r = Inr PyNone \<or> (\<exists>e. r = Inl e)"
    using ts1 ts2 l2 r1 r2 unfolding w' rs by auto
  show ?case
    using a b c d e f g h by blast
qed

lemma count_by_thread:
  assumes "finite T" "\<forall>x \<in> set X. fst x \<in> T"
  shows "length (filter P X) = (\<Sum>t \<in> T. length (filter (\<lambda>x. fst x = t \<and> P x) X))"
  using assms(2)
proof (induction X)
  case Nil
  then show ?case by simp
next
  case (Cons x X)
  then have IH: "length (filter P X) = (\<Sum>t \<in> T. length (filter (\<lambda>x. fst x = t \<and> P x) X))"
    and xT: "fst x \<in> T" by auto
  have "(\<Sum>t \<in> T. length (filter (\<lambda>y. fst y = t \<and> P y) (x # X))) =
        (\<Sum>t \<in> T. (if fst x = t \<and> P x then 1 else 0) + length (filter (\<lambda>y. fst y = t \<and> P y) X))"
    by (rule sum.cong) auto
  also have "\<dots> = (\<Sum>t \<in> T. (if fst x = t \<and> P x then 1 else 0)) + length (filter P X)"
    by (simp add: sum.distrib IH)
  also have "(\<Sum>t \<in> T. (if fst x = t \<and> P x then 1 else 0 :: nat)) = (if P x then 1 else 0)"
    using assms(1) xT by (cases "P x") (simp_all add: sum.delta)
  finally show ?case by simp
qed

lemma sessions_bound:
  assumes th: "\<forall>x \<in> set X. base \<le> fst x \<and> fst x < base + n"
    and m: "\<forall>t. sessions_made_by t X \<le> 1"
  shows "length (filter (\<lambda>x. the_new (snd x) \<noteq> None) X) \<le> n"
proof -
  have "length (filter (\<lambda>x. the_new (snd x) \<noteq> None) X) =
      (\<Sum>t \<in> {base..<base + n}. sessions_made_by t X)"
    unfolding sessions_made_by_def
    by (rule count_by_thread) (use th in auto)
  also have "\<dots> \<le> (\<Sum>t \<in> {base..<base + n}. 1)"
    by (rule sum_mono) (use m in auto)
  finally show ?thesis by simp
qed

section \<open>Properties of the asyncio runner\<close>


lemma map2_snd: "length xs = length ys \<Longrightarrow> map (\<lambda>(i, u). f u) (zip xs ys) = map f ys"
  by (induction xs ys rule: list_induct2) simp_all

lemma create_tasks_eq:
  "create_tasks sites tasks w =
     (tasks @ zip [length tasks..<length tasks + length sites] sites,
      w\<lparr>trace := trace w @ map (\<lambda>(i, u). (current_thread w, TaskCreated i u))
                              (zip [length tasks..<length tasks + length sites] sites)\<rparr>)"
proof (induction sites arbitrary: tasks w)
  case Nil
  then show ?case by simp
next
  case (Cons u sites)
  have up: "[length tasks..<length tasks + length (u # sites)] =
        length tasks # [Suc (length tasks)..<Suc (length tasks) + length sites]"
    using upt_conv_Cons [of "length tasks" "length tasks + Suc (length sites)"] by simp
  show ?case
    unfolding up by (simp add: Cons.IH emit_def)
qed

lemma start_tasks_eq:
  assumes "start_tasks net s tasks w = (pending, w1)"
  shows "trace w1 = trace w @ concat (map (\<lambda>(i, u). [(current_thread w, Call (DownloadSite u)),
                                                      (current_thread w, Get s u)]) tasks) \<and>
         map fst pending = map snd tasks \<and>
         current_thread w1 = current_thread w \<and> sessions_created w1 = sessions_created w"
  using assms
proof (induction tasks arbitrary: w pending w1)
  case Nil
  then show ?case by simp
next
  case (Cons t tasks)
  obtain i u where t: "t = (i, u)" by (cases t)
  let ?w = "emit (Get s u) (emit (Call (DownloadSite u)) w)"
  obtain ps w2 where rest: "start_tasks net s tasks ?w = (ps, w2)"
    by (cases "start_tasks net s tasks ?w")
  from Cons.prems rest t
  have p: "pending = (u, net (process_name w) u (Suc (length (trace w)))) # ps" and w1: "w1 = w2"
    by (simp_all add: downloadSite_async_start_def session_get_def)
  from Cons.IH [OF rest] show ?case
    unfolding p w1 t by simp
qed

lemma arrival_order_perm: "mset (arrival_order order n) = mset [0..<n]"
proof -
  let ?first = "rev (remdups (rev (filter (\<lambda>i. i < n) order)))"
  have d1: "distinct ?first" by simp
  have s1: "set ?first \<subseteq> {0..<n}" by auto
  have d: "distinct (arrival_order order n)"
    unfolding arrival_order_def Let_def using d1 by auto
  have s: "set (arrival_order order n) = {0..<n}"
    unfolding arrival_order_def Let_def using s1 by auto
  have "mset (arrival_order order n) = mset_set {0..<n}"
    using d s by (metis mset_set_set)
  also have "\<dots> = mset [0..<n]"
    by (metis distinct_upt mset_set_set set_upt)
  finally show ?thesis .
qed

lemma start_tasks_pending:
  assumes "start_tasks net s tasks w = (pending, w1)"
  shows "length pending = length tasks \<and> process_name w1 = process_name w \<and>
         (\<forall>k < length tasks. pending ! k =
            (snd (tasks ! k), net (process_name w) (snd (tasks ! k)) (length (trace w) + 2 * k + 1)))"
  using assms
proof (induction tasks arbitrary: w pending w1)
  case Nil
  then show ?case by simp
next
  case (Cons t tasks)
  obtain i u where t: "t = (i, u)" by (cases t)
  let ?w = "emit (Get s u) (emit (Call (DownloadSite u)) w)"
  obtain ps w2 where rest: "start_tasks net s tasks ?w = (ps, w2)"
    by (cases "start_tasks net s tasks ?w")
  from Cons.prems rest t
  have p: "pending = (u, net (process_name w) u (Suc (length (trace w)))) # ps" and w1: "w1 = w2"
    by (simp_all add: downloadSite_async_start_def session_get_def)
  from Cons.IH [OF rest] have
    l: "length ps = length tasks" and pn: "process_name w2 = process_name w"
    and n: "\<forall>k < length tasks. ps ! k =
            (snd (tasks ! k), net (process_name w) (snd (tasks ! k)) (length (trace w) + 2 + 2 * k + 1))"
    by simp_all
  have "\<forall>k < length (t # tasks). pending ! k =
            (snd ((t # tasks) ! k), net (process_name w) (snd ((t # tasks) ! k)) (length (trace w) + 2 * k + 1))"
  proof (intro allI impI)
    fix k assume "k < length (t # tasks)"
    then show "pending ! k =
            (snd ((t # tasks) ! k), net (process_name w) (snd ((t # tasks) ! k)) (length (trace w) + 2 * k + 1))"
      using n unfolding p t by (cases k) simp_all
  qed
  with l pn show ?case unfolding p w1 by simp
qed

lemma finish_tasks_lines:
  assumes "finish_tasks arrivals pending w = (rs, w1)"
  shows "trace w1 = trace w @ map (\<lambda>l. (current_thread w, Print l))
                               (List.map_filter (finish_line pending) arrivals) \<and>
         current_thread w1 = current_thread w"
  using assms
proof (induction arrivals arbitrary: w rs w1)
  case Nil
  then show ?case by (simp add: List.map_filter_simps)
next
  case (Cons i arrivals)
  show ?case
  proof (cases "i < length pending")
    case False
    with Cons.prems have "finish_tasks arrivals pending w = (rs, w1)" by simp
    from Cons.IH [OF this] False show ?thesis
      by (simp add: List.map_filter_simps finish_line_def)
  next
    case True
    obtain r0 w0 where fin: "downloadSite_async_finish (fst (pending ! i)) (snd (pending ! i)) w = (r0, w0)"
      by (cases "downloadSite_async_finish (fst (pending ! i)) (snd (pending ! i)) w")
    obtain rs2 w2 where rest: "finish_tasks arrivals pending w0 = (rs2, w2)"
      by (cases "finish_tasks arrivals pending w0")
    from Cons.prems True fin rest have w1: "w1 = w2" by simp
    from fin True have f0: "trace w0 = trace w @ map (\<lambda>l. (current_thread w, Print l))
              (case finish_line pending i of None \<Rightarrow> [] | Some l \<Rightarrow> [l])"
      and c0: "current_thread w0 = current_thread w"
      by (cases "snd (pending ! i)"; auto simp: downloadSite_async_finish_def finish_line_def)+
    from Cons.IH [OF rest] f0 c0 show ?thesis
      unfolding w1 by (cases "finish_line pending i") (simp_all add: List.map_filter_simps)
  qed
qed

section \<open>Properties of the process pool\<close>


lemma chunked_concat: "0 < n \<Longrightarrow> concat (chunked n xs) = xs"
proof (induction n xs rule: chunked.induct)
  case (1 n xs)
  show ?case
  proof (cases "xs = []")
    case True
    then show ?thesis by (simp add: chunked.simps)
  next
    case False
    with 1 have "concat (chunked n (drop n xs)) = drop n xs" by simp
    with False 1(2) show ?thesis
      by (subst chunked.simps) simp
  qed
qed

lemma chunked_Nil [simp]: "chunked n [] = []"
  by (simp add: chunked.simps)

lemma chunksize_pos: "0 < len \<Longrightarrow> 0 < workers \<Longrightarrow> 0 < chunksize_of len workers"
proof (cases "len mod (workers * 4) = 0")
  case False
  then show ?thesis by (simp add: chunksize_of_def)
next
  case True
  assume "0 < len" "0 < workers"
  from True have "workers * 4 dvd len" by (simp add: dvd_eq_mod_eq_0)
  then have "workers * 4 \<le> len" using \<open>0 < len\<close> by (rule dvd_imp_le)
  with \<open>0 < workers\<close> have "0 < len div (workers * 4)" by (simp add: div_greater_zero_iff)
  with True show ?thesis by (simp add: chunksize_of_def)
qed

lemma pool_size_pos: "0 < pool_size cpus"
  by (simp add: pool_size_def)

lemma chunks_concat:
  "concat (chunked (chunksize_of (length items) (pool_size cpus)) items) = items"
proof (cases "items = []")
  case True
  then show ?thesis by simp
next
  case False
  then have "0 < chunksize_of (length items) (pool_size cpus)"
    by (intro chunksize_pos pool_size_pos) simp
  then show ?thesis by (rule chunked_concat)
qed

lemma mapstar_calls:
  assumes fn: "\<And>x w r w1. fn x w = (r, w1) \<Longrightarrow> calls w1 = calls w @ [mk x]"
    and "mapstar fn c w = (r, w1)"
  shows "\<exists>k \<le> length c. calls w1 = calls w @ map mk (take k c) \<and>
            (failure_of r = None \<longrightarrow> k = length c)"
  using assms(2)
proof (induction c arbitrary: w r w1)
  case Nil
  then show ?case by auto
next
  case (Cons x c)
  obtain r0 w0 where step: "fn x w = (r0, w0)" by (cases "fn x w")
  from fn [OF step] have c0: "calls w0 = calls w @ [mk x]" .
  show ?case
  proof (cases r0)
    case (Inl e)
    with Cons.prems step have "r = Inl e" "w1 = w0" by simp_all
    with c0 show ?thesis by (intro exI [of _ "Suc 0"]) simp
  next
    case (Inr v)
    obtain r2 w2 where rest: "mapstar fn c w0 = (r2, w2)" by (cases "mapstar fn c w0")
    from Cons.IH [OF rest] obtain k where k: "k \<le> length c"
      and c2: "calls w2 = calls w0 @ map mk (take k c)"
      and f2: "failure_of r2 = None \<longrightarrow> k = length c" by auto
    from Cons.prems step Inr rest have "(case r2 of Inl e \<Rightarrow> (Inl e, w2) | Inr vs \<Rightarrow> (Inr (v # vs), w2)) = (r, w1)"
      by simp
    then have w1: "w1 = w2" and r: "failure_of r = failure_of r2"
      by (cases r2; auto)+
    show ?thesis
      using k c2 f2 c0 unfolding w1 r by (intro exI [of _ "Suc k"]) simp
  qed
qed

lemma mapstar_inv:
  assumes fn: "\<And>x w r w1. fn x w = (r, w1) \<Longrightarrow> Inv w \<Longrightarrow> Inv w1"
    and "mapstar fn c w = (r, w1)" "Inv w"
  shows "Inv w1"
  using assms(2,3)
proof (induction c arbitrary: w r w1)
  case Nil
  then show ?case by simp
next
  case (Cons x c)
  obtain r0 w0 where step: "fn x w = (r0, w0)" by (cases "fn x w")
  from fn [OF step Cons.prems(2)] have i0: "Inv w0" .
  show ?case
  proof (cases r0)
    case (Inl e)
    with Cons.prems step i0 show ?thesis by simp
  next
    case (Inr v)
    obtain r2 w2 where rest: "mapstar fn c w0 = (r2, w2)" by (cases "mapstar fn c w0")
    from Cons.prems step Inr rest have "w1 = w2" by (cases r2) simp_all
    with Cons.IH [OF rest i0] show ?thesis by simp
  qed
qed

lemma calls_update:
  "k < length ws \<Longrightarrow> calls w1 = calls (ws ! k) @ X \<Longrightarrow>
     mset (concat (map calls (ws[k := w1]))) = mset (concat (map calls ws)) + mset X"
proof (induction ws arbitrary: k)
  case Nil
  then show ?case by simp
next
  case (Cons a ws)
  then show ?case by (cases k) simp_all
qed

lemma run_chunks_calls:
  assumes fn: "\<And>x w r w1. fn x w = (r, w1) \<Longrightarrow> calls w1 = calls w @ [mk x]"
    and "run_chunks sched fn chunks j ws = (rs, ws1)" "ws \<noteq> []"
  shows "length ws1 = length ws \<and>
     (\<exists>Y. mset (concat (map calls ws1)) = mset (concat (map calls ws)) + mset (map mk Y) \<and>
          mset Y \<subseteq># mset (concat chunks) \<and>
          (List.map_filter failure_of rs = [] \<longrightarrow> Y = concat chunks))"
  using assms(2,3)
proof (induction chunks arbitrary: j ws rs ws1)
  case Nil
  then show ?case by (auto simp: List.map_filter_simps)
next
  case (Cons c chunks)
  let ?k = "sched j mod length ws"
  have k: "?k < length ws" using Cons.prems(2) by simp
  obtain r0 w0 where step: "mapstar fn c (ws ! ?k) = (r0, w0)"
    by (cases "mapstar fn c (ws ! ?k)")
  obtain rs2 ws2 where rest: "run_chunks sched fn chunks (Suc j) (ws[?k := w0]) = (rs2, ws2)"
    by (cases "run_chunks sched fn chunks (Suc j) (ws[?k := w0])")
  from Cons.prems(1) step rest have rs: "rs = r0 # rs2" and ws1: "ws1 = ws2" by simp_all
  have "\<exists>m \<le> length c. calls w0 = calls (ws ! ?k) @ map mk (take m c) \<and>
            (failure_of r0 = None \<longrightarrow> m = length c)"
    by (rule mapstar_calls [where fn = fn and mk = mk, OF _ step]) (rule fn)
  then obtain m where m: "m \<le> length c"
    and c0: "calls w0 = calls (ws ! ?k) @ map mk (take m c)"
    and f0: "failure_of r0 = None \<longrightarrow> m = length c" by auto
  have ne: "ws[?k := w0] \<noteq> []" using Cons.prems(2) by simp
  from Cons.IH [OF rest ne] obtain Y where
    l: "length ws2 = length ws"
    and y: "mset (concat (map calls ws2)) = mset (concat (map calls (ws[?k := w0]))) + mset (map mk Y)"
    and sub: "mset Y \<subseteq># mset (concat chunks)"
    and full: "List.map_filter failure_of rs2 = [] \<longrightarrow> Y = concat chunks"
    by auto
  have u: "mset (concat (map calls (ws[?k := w0]))) = mset (concat (map calls ws)) + mset (map mk (take m c))"
    by (rule calls_update [OF k c0])
  have s1: "mset (take m c) \<subseteq># mset c"
  proof -
    have "mset c = mset (take m c) + mset (drop m c)"
      by (metis append_take_drop_id mset_append)
    then show ?thesis by simp
  qed
  have "mset (concat (map calls ws1)) = mset (concat (map calls ws)) + mset (map mk (take m c @ Y))"
    unfolding ws1 y u by simp
  moreover have "mset (take m c @ Y) \<subseteq># mset (concat (c # chunks))"
    using s1 sub by (simp add: subset_mset.add_mono)
  moreover have "List.map_filter failure_of rs = [] \<longrightarrow> take m c @ Y = concat (c # chunks)"
    using f0 full unfolding rs by (cases "failure_of r0") (simp_all add: List.map_filter_simps)
  ultimately show ?case using l unfolding ws1 by blast
qed

lemma run_chunks_inv:
  assumes fn: "\<And>x w r w1. fn x w = (r, w1) \<Longrightarrow> Inv w \<Longrightarrow> Inv w1"
    and "run_chunks sched fn chunks j ws = (rs, ws1)" "ws \<noteq> []" "\<forall>w \<in> set ws. Inv w"
  shows "\<forall>w \<in> set ws1. Inv w"
  using assms(2,3,4)
proof (induction chunks arbitrary: j ws rs ws1)
  case Nil
  then show ?case by simp
next
  case (Cons c chunks)
  let ?k = "sched j mod length ws"
  have k: "?k < length ws" using Cons.prems(2) by simp
  obtain r0 w0 where step: "mapstar fn c (ws ! ?k) = (r0, w0)"
    by (cases "mapstar fn c (ws ! ?k)")
  obtain rs2 ws2 where rest: "run_chunks sched fn chunks (Suc j) (ws[?k := w0]) = (rs2, ws2)"
    by (cases "run_chunks sched fn chunks (Suc j) (ws[?k := w0])")
  from Cons.prems(1) step rest have ws1: "ws1 = ws2" by simp
  have ik: "Inv (ws ! ?k)" using Cons.prems(3) k by simp
  have i0: "Inv w0"
    by (rule mapstar_inv [where fn = fn and Inv = Inv, OF _ step ik]) (rule fn)
  have ne: "ws[?k := w0] \<noteq> []" using Cons.prems(2) by simp
  have "\<forall>w \<in> set (ws[?k := w0]). Inv w"
  proof
    fix w assume "w \<in> set (ws[?k := w0])"
    then have "w \<in> insert w0 (set ws)" using set_update_subset_insert by fast
    then show "Inv w" using Cons.prems(3) i0 by auto
  qed
  from Cons.IH [OF rest ne this] show ?case unfolding ws1 .
qed

lemma mapstar_ok:
  assumes fn: "\<And>x w. \<exists>v w1. fn x w = (Inr v, w1)"
  shows "\<exists>vs w1. mapstar fn c w = (Inr vs, w1)"
proof (induction c arbitrary: w)
  case Nil
  then show ?case by simp
next
  case (Cons x c)
  from fn [of x w] obtain v w0 where step: "fn x w = (Inr v, w0)" by blast
  from Cons [of w0] obtain vs w1 where "mapstar fn c w0 = (Inr vs, w1)" by blast
  with step show ?case by simp
qed

lemma run_chunks_ok:
  assumes fn: "\<And>x w. \<exists>v w1. fn x w = (Inr v, w1)"
    and "run_chunks sched fn chunks j ws = (rs, ws1)"
  shows "List.map_filter failure_of rs = []"
  using assms(2)
proof (induction chunks arbitrary: j ws rs ws1)
  case Nil
  then show ?case by (simp add: List.map_filter_simps)
next
  case (Cons c chunks)
  let ?k = "sched j mod length ws"
  have "\<exists>vs w1. mapstar fn c (ws ! ?k) = (Inr vs, w1)"
    by (rule mapstar_ok) (rule fn)
  then obtain vs w0 where step: "mapstar fn c (ws ! ?k) = (Inr vs, w0)" by blast
  obtain rs2 ws2 where rest: "run_chunks sched fn chunks (Suc j) (ws[?k := w0]) = (rs2, ws2)"
    by (cases "run_chunks sched fn chunks (Suc j) (ws[?k := w0])")
  from Cons.prems step rest have rs: "rs = Inr vs # rs2" by simp
  from Cons.IH [OF rest] show ?case unfolding rs by (simp add: List.map_filter_simps)
qed

lemma pool_map_cases:
  assumes "pool_map sched pick cpus init fn items parent = (r, workers)"
  obtains results where
    "run_chunks sched fn (chunked (chunksize_of (length items) (pool_size cpus)) items) 0
       (map (start_worker init parent) [0..<pool_size cpus]) = (results, workers)"
    "failure_of r = None \<longleftrightarrow> List.map_filter failure_of results = []"
proof -
  obtain results ws where run:
    "run_chunks sched fn (chunked (chunksize_of (length items) (pool_size cpus)) items) 0
       (map (start_worker init parent) [0..<pool_size cpus]) = (results, ws)"
    by (cases "run_chunks sched fn (chunked (chunksize_of (length items) (pool_size cpus)) items) 0
       (map (start_worker init parent) [0..<pool_size cpus])")
  from assms have pm: "(case List.map_filter failure_of results of
             [] \<Rightarrow> (Inr (PyList (concat (List.map_filter value_of results))), ws)
           | e # es \<Rightarrow> (Inl ((e # es) ! (pick mod length (e # es))), ws)) = (r, workers)"
    unfolding pool_map_def run prod.case .
  have "workers = ws \<and> (failure_of r = None \<longleftrightarrow> List.map_filter failure_of results = [])"
  proof (cases "List.map_filter failure_of results")
    case Nil
    with pm show ?thesis by auto
  next
    case (Cons e es)
    with pm have "workers = ws" and "r = Inl ((e # es) ! (pick mod length (e # es)))"
      by simp_all
    with Cons show ?thesis by simp
  qed
  with run show ?thesis by (intro that [of results]) simp_all
qed

lemma workers_nonempty: "map (start_worker init parent) [0..<pool_size cpus] \<noteq> []"
  using pool_size_pos [of cpus] by simp

lemma start_calls:
  assumes "\<And>w. calls (init w) = calls w"
  shows "concat (map calls (map (start_worker init parent) [0..<n])) = []"
proof -
  have "calls (start_worker init parent k) = []" for k
    unfolding start_worker_def assms
    by (simp add: calls_def events_def List.map_filter_simps)
  then show ?thesis by simp
qed

lemma pool_map_calls:
  assumes fn: "\<And>x w r w1. fn x w = (r, w1) \<Longrightarrow> calls w1 = calls w @ [mk x]"
    and init: "\<And>w. calls (init w) = calls w"
    and pm: "pool_map sched pick cpus init fn items parent = (r, workers)"
  shows "length workers = pool_size cpus \<and>
         mset (concat (map calls workers)) \<subseteq># mset (map mk items) \<and>
         (failure_of r = None \<longrightarrow> mset (concat (map calls workers)) = mset (map mk items))"
proof -
  let ?chunks = "chunked (chunksize_of (length items) (pool_size cpus)) items"
  let ?ws = "map (start_worker init parent) [0..<pool_size cpus]"
  from pm obtain results where run: "run_chunks sched fn ?chunks 0 ?ws = (results, workers)"
    and f: "failure_of r = None \<longleftrightarrow> List.map_filter failure_of results = []"
    by (rule pool_map_cases)
  have "length workers = length ?ws \<and>
     (\<exists>Y. mset (concat (map calls workers)) = mset (concat (map calls ?ws)) + mset (map mk Y) \<and>
          mset Y \<subseteq># mset (concat ?chunks) \<and>
          (List.map_filter failure_of results = [] \<longrightarrow> Y = concat ?chunks))"
    by (rule run_chunks_calls [where fn = fn and mk = mk, OF _ run workers_nonempty]) (rule fn)
  then obtain Y where l: "length workers = length ?ws"
    and y: "mset (concat (map calls workers)) = mset (concat (map calls ?ws)) + mset (map mk Y)"
    and sub: "mset Y \<subseteq># mset (concat ?chunks)"
    and full: "List.map_filter failure_of results = [] \<longrightarrow> Y = concat ?chunks"
    by auto
  have y': "mset (concat (map calls workers)) = mset (map mk Y)"
    using y start_calls [of init parent "pool_size cpus", OF init] by simp
  have "mset (map mk Y) \<subseteq># mset (map mk items)"
    using sub by (simp add: chunks_concat image_mset_subseteq_mono)
  with y' l full f show ?thesis by (auto simp: chunks_concat)
qed

lemma pool_map_inv:
  assumes fn: "\<And>x w r w1. fn x w = (r, w1) \<Longrightarrow> Inv w \<Longrightarrow> Inv w1"
    and init: "\<And>k. Inv (start_worker init parent k)"
    and pm: "pool_map sched pick cpus init fn items parent = (r, workers)"
  shows "\<forall>w \<in> set workers. Inv w"
proof -
  let ?chunks = "chunked (chunksize_of (length items) (pool_size cpus)) items"
  let ?ws = "map (start_worker init parent) [0..<pool_size cpus]"
  from pm obtain results where run: "run_chunks sched fn ?chunks 0 ?ws = (results, workers)"
    by (rule pool_map_cases)
  have i: "\<forall>w \<in> set ?ws. Inv w" using init by auto
  show ?thesis
    by (rule run_chunks_inv [where fn = fn and Inv = Inv, OF _ run workers_nonempty i]) (rule fn)
qed

lemma pool_map_ok:
  assumes fn: "\<And>x w. \<exists>v w1. fn x w = (Inr v, w1)"
    and pm: "pool_map sched pick cpus init fn items parent = (r, workers)"
  shows "failure_of r = None"
proof -
  let ?chunks = "chunked (chunksize_of (length items) (pool_size cpus)) items"
  let ?ws = "map (start_worker init parent) [0..<pool_size cpus]"
  from pm obtain results where run: "run_chunks sched fn ?chunks 0 ?ws = (results, workers)"
    and f: "failure_of r = None \<longleftrightarrow> List.map_filter failure_of results = []"
    by (rule pool_map_cases)
  have "List.map_filter failure_of results = []"
    by (rule run_chunks_ok [where fn = fn, OF _ run]) (rule fn)
  with f show ?thesis by simp
qed

section \<open>The runners as wholes\<close>


lemma calls_trace: "trace w1 = trace w @ X \<Longrightarrow> calls w1 = calls w @ List.map_filter the_call (map snd X)"
  by (simp add: calls_def events_def map_filter_append)


lemma added_trace: "trace w1 = trace w @ X \<Longrightarrow> added w w1 = X"
  by (simp add: added_def)

lemma downloadAllSites_threaded_spec:
  assumes "downloadAllSites_threaded sched net sites w = (r, w1)"
  shows "r = Inr PyNone \<and>
     (\<exists>X. trace w1 = trace w @ X \<and>
        (\<forall>x \<in> set X. threads_started w < fst x \<and> fst x \<le> threads_started w + max_workers) \<and>
        (\<forall>t s v. (t, Get s v) \<in> set X \<longrightarrow> threadLocal w1 t = Some s) \<and>
        (\<forall>t. sessions_made_by t X \<le> 1) \<and>
        sessions_created w1 \<le> sessions_created w + max_workers \<and>
        List.map_filter the_call (map snd X) = map DownloadSite sites)"
proof -
  let ?w = "w\<lparr>threads_started := threads_started w + max_workers\<rparr>"
  let ?base = "Suc (threads_started w)"
  obtain rs w2 where run: "run_work_items sched ?base (downloadSite_threaded net) sites 0 ?w = (rs, w2)"
    by (cases "run_work_items sched ?base (downloadSite_threaded net) sites 0 ?w")
  from assms run have r: "r = Inr PyNone" and w1: "w1 = w2\<lparr>current_thread := current_thread w\<rparr>"
    by (simp_all add: downloadAllSites_threaded_def)
  from run_work_items_threaded [OF run] obtain X where
    t: "trace w2 = trace ?w @ X"
    and th: "\<forall>x \<in> set X. ?base \<le> fst x \<and> fst x < ?base + max_workers"
    and g: "\<forall>t s v. (t, Get s v) \<in> set X \<longrightarrow> threadLocal w2 t = Some s"
    and m: "\<forall>t. sessions_made_by t X \<le> (if threadLocal ?w t = None then 1 else 0)"
    and sc: "sessions_created w2 = sessions_created ?w + length (filter (\<lambda>x. the_new (snd x) \<noteq> None) X)"
    and c: "List.map_filter the_call (map snd X) = map DownloadSite sites"
    by blast
  have m1: "\<forall>t. sessions_made_by t X \<le> 1"
  proof
    fix t show "sessions_made_by t X \<le> 1" using m [rule_format, of t] by (simp split: if_splits)
  qed
  have "length (filter (\<lambda>x. the_new (snd x) \<noteq> None) X) \<le> max_workers"
    using th m1 by (rule sessions_bound)
  with sc have b: "sessions_created w1 \<le> sessions_created w + max_workers"
    unfolding w1 by simp
  have th': "\<forall>x \<in> set X. threads_started w < fst x \<and> fst x \<le> threads_started w + max_workers"
    using th by auto
  have "trace w1 = trace w @ X" using t unfolding w1 by simp
  moreover have "\<forall>t s v. (t, Get s v) \<in> set X \<longrightarrow> threadLocal w1 t = Some s"
    using g unfolding w1 by simp
  ultimately show ?thesis using r th' m1 b c by blast
qed

lemma downloadAllSites_async_full:
  assumes "downloadAllSites_async order net sites w = (r, w1)"
  shows "r = Inr PyNone \<and>
     map snd (added w w1) =
        NewSession (sessions_created w)
          # map (\<lambda>(i, u). TaskCreated i u) (zip [0..<length sites] sites)
          @ concat (map (\<lambda>u. [Call (DownloadSite u), Get (sessions_created w) u]) sites)
          @ map Print (List.map_filter (async_line net w sites) (arrival_order order (length sites)))
          @ [CloseSession (sessions_created w)]"
proof -
  let ?s = "sessions_created w"
  let ?w1 = "emit (NewSession ?s) (w\<lparr>sessions_created := Suc ?s\<rparr>)"
  let ?tasks = "zip [0..<length sites] sites"
  let ?w2 = "?w1\<lparr>trace := trace ?w1 @ map (\<lambda>(i, u). (current_thread ?w1, TaskCreated i u)) ?tasks\<rparr>"
  have ct: "create_tasks sites [] ?w1 = (?tasks, ?w2)"
    using create_tasks_eq [of sites "[]" ?w1] by simp
  obtain pending w3 where st: "start_tasks net ?s ?tasks ?w2 = (pending, w3)"
    by (cases "start_tasks net ?s ?tasks ?w2")
  obtain gathered w4 where ft: "finish_tasks (arrival_order order (length pending)) pending w3 = (gathered, w4)"
    by (cases "finish_tasks (arrival_order order (length pending)) pending w3")
  from assms have "(Inr PyNone, emit (CloseSession ?s) w4) = (r, w1)"
    unfolding downloadAllSites_async_def Session_eq prod.case ct st ft .
  then have r: "r = Inr PyNone" and w1: "w1 = emit (CloseSession ?s) w4"
    by simp_all
  from start_tasks_eq [OF st] have
    t3: "trace w3 = trace ?w2 @ concat (map (\<lambda>u. [(current_thread w, Call (DownloadSite u)),
                                                      (current_thread w, Get ?s u)]) sites)"
    and c3: "current_thread w3 = current_thread w"
    by (simp_all add: map2_snd)
  from start_tasks_pending [OF st] have
    lp: "length pending = length sites"
    and pk: "\<forall>k < length sites. pending ! k =
               (sites ! k, net (process_name w) (sites ! k) (length (trace w) + length sites + 2 * k + 2))"
    by simp_all
  have fl: "finish_line pending = async_line net w sites"
  proof
    fix i show "finish_line pending i = async_line net w sites i"
    proof (cases "i < length sites")
      case True
      with pk have "pending ! i =
          (sites ! i, net (process_name w) (sites ! i) (length (trace w) + length sites + 2 * i + 2))"
        by blast
      with True lp show ?thesis by (simp add: finish_line_def async_line_def split: sum.splits)
    next
      case False
      with lp show ?thesis by (simp add: finish_line_def async_line_def)
    qed
  qed
  from finish_tasks_lines [OF ft] have
    t4: "trace w4 = trace w3 @ map (\<lambda>l. (current_thread w, Print l))
            (List.map_filter (async_line net w sites) (arrival_order order (length sites)))"
    and c4: "current_thread w4 = current_thread w"
    unfolding fl lp c3 by simp_all
  let ?F = "List.map_filter (async_line net w sites) (arrival_order order (length sites))"
  have m1: "map snd (map (\<lambda>(i, u). (current_thread w, TaskCreated i u)) ?tasks) =
            map (\<lambda>(i, u). TaskCreated i u) ?tasks"
    by (simp add: case_prod_beta)
  have m2: "map snd (concat (map (\<lambda>u. [(current_thread w, Call (DownloadSite u)),
                                           (current_thread w, Get ?s u)]) sites)) =
            concat (map (\<lambda>u. [Call (DownloadSite u), Get ?s u]) sites)"
    by (simp add: map_concat comp_def)
  have "trace w1 = trace w @ ((current_thread w, NewSession ?s)
          # map (\<lambda>(i, u). (current_thread w, TaskCreated i u)) ?tasks
          @ concat (map (\<lambda>u. [(current_thread w, Call (DownloadSite u)),
                                           (current_thread w, Get ?s u)]) sites)
          @ map (\<lambda>l. (current_thread w, Print l)) ?F @ [(current_thread w, CloseSession ?s)])"
    unfolding w1 using t3 t4 c3 c4 by simp
  then have "added w w1 = (current_thread w, NewSession ?s)
          # map (\<lambda>(i, u). (current_thread w, TaskCreated i u)) ?tasks
          @ concat (map (\<lambda>u. [(current_thread w, Call (DownloadSite u)),
                                           (current_thread w, Get ?s u)]) sites)
          @ map (\<lambda>l. (current_thread w, Print l)) ?F @ [(current_thread w, CloseSession ?s)]"
    by (simp add: added_def)
  then have "map snd (added w w1) =
        NewSession ?s # map (\<lambda>(i, u). TaskCreated i u) ?tasks
          @ concat (map (\<lambda>u. [Call (DownloadSite u), Get ?s u]) sites)
          @ map Print ?F @ [CloseSession ?s]"
    using m1 m2 by (simp add: comp_def)
  with r show ?thesis by (intro conjI)
qed

lemma calls_current_thread [simp]: "calls (w\<lparr>current_thread := t\<rparr>) = calls w"
  by (simp add: calls_def events_def)









lemma setGlobalSession_calls: "calls (setGlobalSession w) = calls w"
  by (cases "global_session w") (simp_all add: setGlobalSession_def Session_eq calls_def events_def
      map_filter_append List.map_filter_simps)

lemma downloadSite_mp_calls:
  "downloadSite_mp net u w = (r, w1) \<Longrightarrow> calls w1 = calls w @ [DownloadSite u]"
  by (cases "global_session w")
    (auto simp: downloadSite_mp_def session_get_def split: sum.splits)

lemma call_sumOfSquares_calls:
  "call_sumOfSquares n w = (r, w1) \<Longrightarrow> calls w1 = calls w @ [SumOfSquares n]"
  by (auto simp: call_sumOfSquares_def)

lemma downloadAllSites_mp_calls:
  assumes "downloadAllSites_mp sched pick cpus net sites w = (r, workers)"
  shows "length workers = pool_size cpus \<and>
         mset (concat (map calls workers)) \<subseteq># mset (map DownloadSite sites) \<and>
         (r = Inr PyNone \<longrightarrow> mset (concat (map calls workers)) = mset (map DownloadSite sites)) \<and>
         (r = Inr PyNone \<or> (\<exists>e. r = Inl e))"
proof -
  obtain r0 where pm: "pool_map sched pick cpus setGlobalSession (downloadSite_mp net) sites w = (r0, workers)"
    and r: "failure_of r = failure_of r0" "r = Inr PyNone \<or> (\<exists>e. r = Inl e)"
    using assms unfolding downloadAllSites_mp_def
    by (cases "pool_map sched pick cpus setGlobalSession (downloadSite_mp net) sites w")
      (auto split: sum.splits)
  have "length workers = pool_size cpus \<and>
         mset (concat (map calls workers)) \<subseteq># mset (map DownloadSite sites) \<and>
         (failure_of r0 = None \<longrightarrow> mset (concat (map calls workers)) = mset (map DownloadSite sites))"
    by (rule pool_map_calls [where fn = "downloadSite_mp net" and init = setGlobalSession, OF _ _ pm])
      (rule downloadSite_mp_calls, assumption, rule setGlobalSession_calls)
  with r show ?thesis by auto
qed

lemma findSumsMultiProcessing_spec:
  assumes "findSumsMultiProcessing sched pick cpus numbers w = (r, workers)"
  shows "r = Inr PyNone \<and> length workers = pool_size cpus \<and>
         mset (concat (map calls workers)) = mset (map SumOfSquares numbers)"
proof -
  obtain r0 where pm: "pool_map sched pick cpus (\<lambda>w. w) call_sumOfSquares numbers w = (r0, workers)"
    and r: "failure_of r = failure_of r0" "r = Inr PyNone \<or> (\<exists>e. r = Inl e)"
    using assms unfolding findSumsMultiProcessing_def
    by (cases "pool_map sched pick cpus (\<lambda>w. w) call_sumOfSquares numbers w")
      (auto split: sum.splits)
  have ok: "failure_of r0 = None"
    by (rule pool_map_ok [where fn = call_sumOfSquares, OF _ pm]) (simp add: call_sumOfSquares_def)
  have "length workers = pool_size cpus \<and>
         mset (concat (map calls workers)) \<subseteq># mset (map SumOfSquares numbers) \<and>
         (failure_of r0 = None \<longrightarrow> mset (concat (map calls workers)) = mset (map SumOfSquares numbers))"
    by (rule pool_map_calls [where fn = call_sumOfSquares and init = "\<lambda>w. w", OF _ _ pm])
      (rule call_sumOfSquares_calls, assumption, rule refl)
  with ok r show ?thesis by auto
qed

lemma sync_pair:
  "\<exists>k ns. k \<le> length sites \<and>
      calls (snd (downloadAllSites_sync net sites w)) = calls w @ map DownloadSite (take k sites) \<and>
      gets (snd (downloadAllSites_sync net sites w)) = gets w @ take k sites \<and>
      prints (snd (downloadAllSites_sync net sites w)) =
        prints w @ map2 (\<lambda>n u. read_line (str_nat n) u) ns sites \<and>
      (fst (downloadAllSites_sync net sites w) = Inr PyNone \<and> k = length sites \<and> length ns = k \<or>
       (\<exists>e. fst (downloadAllSites_sync net sites w) = Inl e) \<and> Suc (length ns) = k)"
  using downloadAllSites_sync_spec [of net sites w "fst (downloadAllSites_sync net sites w)"
      "snd (downloadAllSites_sync net sites w)"]
  by simp

lemma threaded_pair:
  "fst (downloadAllSites_threaded sched net sites w) = Inr PyNone \<and>
   calls (snd (downloadAllSites_threaded sched net sites w)) = calls w @ map DownloadSite sites"
proof -
  obtain r w1 where run: "downloadAllSites_threaded sched net sites w = (r, w1)"
    by (cases "downloadAllSites_threaded sched net sites w")
  from downloadAllSites_threaded_spec [OF run] obtain X where "r = Inr PyNone"
    "trace w1 = trace w @ X" "List.map_filter the_call (map snd X) = map DownloadSite sites"
    by blast
  then show ?thesis unfolding run by (simp add: calls_trace)
qed


section \<open>The claims about the batch runners\<close>








text \<open>
  Claim C10, as the code has it. \<^verbatim>\<open>findSums\<close>, \<^verbatim>\<open>findSumsMultiProcessing\<close> and the
  thread-pool and asyncio \<^verbatim>\<open>downloadAllSites\<close> return \<^verbatim>\<open>None\<close> for every list, whatever
  the outcomes of the items. The sequential \<^verbatim>\<open>downloadAllSites\<close> returns \<^verbatim>\<open>None\<close> when
  every download has printed its line, and otherwise raises the exception of the failing
  download to its caller. No runner returns any other value.
\<close>

theorem runners_return_None:
  "fst (findSums numbers w) = Inr PyNone \<and>
   fst (findSumsMultiProcessing sched pick cpus numbers w) = Inr PyNone \<and>
   fst (downloadAllSites_threaded sched net sites w) = Inr PyNone \<and>
   fst (downloadAllSites_async order net sites w) = Inr PyNone \<and>
   (fst (downloadAllSites_sync net sites w) = Inr PyNone \<and>
      length (prints (snd (downloadAllSites_sync net sites w))) = length (prints w) + length sites \<or>
    (\<exists>e. fst (downloadAllSites_sync net sites w) = Inl e) \<and>
      length (prints (snd (downloadAllSites_sync net sites w))) < length (prints w) + length sites)"
proof -
  have a: "fst (findSums numbers w) = Inr PyNone"
    using findSums_spec [OF prod.collapse [symmetric], of numbers w] by blast
  have b: "fst (findSumsMultiProcessing sched pick cpus numbers w) = Inr PyNone"
    using findSumsMultiProcessing_spec [OF prod.collapse [symmetric], of sched pick cpus numbers w]
    by blast
  have c: "fst (downloadAllSites_threaded sched net sites w) = Inr PyNone"
    using threaded_pair [of sched net sites w] by blast
  have d: "fst (downloadAllSites_async order net sites w) = Inr PyNone"
    using downloadAllSites_async_full [OF prod.collapse [symmetric], of order net sites w] by blast
  from sync_pair [of sites net w] obtain k ns where
    k: "k \<le> length sites"
    and p: "prints (snd (downloadAllSites_sync net sites w)) =
              prints w @ map2 (\<lambda>n u. read_line (str_nat n) u) ns sites"
    and dj: "fst (downloadAllSites_sync net sites w) = Inr PyNone \<and> k = length sites \<and> length ns = k \<or>
            (\<exists>e. fst (downloadAllSites_sync net sites w) = Inl e) \<and> Suc (length ns) = k"
    by blast
  have e: "fst (downloadAllSites_sync net sites w) = Inr PyNone \<and>
      length (prints (snd (downloadAllSites_sync net sites w))) = length (prints w) + length sites \<or>
    (\<exists>e. fst (downloadAllSites_sync net sites w) = Inl e) \<and>
      length (prints (snd (downloadAllSites_sync net sites w))) < length (prints w) + length sites"
    using dj k unfolding p by auto
  from a b c d e show ?thesis by (intro conjI)
qed

text \<open>
  The claim as first stated fails for the sequential runner: when the first download is
  refused the runner does not return \<^verbatim>\<open>None\<close>, it raises.
\<close>

theorem runners_return_None_counterexample:
  "fst (downloadAllSites_sync (down_for ''https://www.jython.org'')
          [''https://www.jython.org'', ''http://olympus.realpython.org/dice''] initial_proc) =
     Inl (RequestException ''connection refused'')"
  by code_simp

lemma added_getSession:
  "threadLocal w (current_thread w) = None \<Longrightarrow>
     added w (snd (getSession w)) = [(current_thread w, NewSession (sessions_created w))]"
  by (simp add: getSession_unset added_def)

section \<open>The claims about sessions\<close>

text \<open>
  Claim C4. \<^verbatim>\<open>getSession\<close> is idempotent on a thread: a second call returns the same
  session and leaves the state as the first call left it. On a thread without a session
  it constructs one, which is its only effect, and stores it in the thread's slot; on a
  thread with a session it returns that session and changes nothing; the slots of other
  threads are never touched. In a run of the thread-pool \<^verbatim>\<open>downloadAllSites\<close> every
  thread constructs at most one session, every request of a thread goes through the
  session in that thread's slot, only the pool's \<^verbatim>\<open>max_workers\<close> threads act, and at
  most \<^verbatim>\<open>max_workers\<close> sessions are constructed, however many items there are.
\<close>

theorem getSession_once_per_thread:
  "getSession (snd (getSession w)) = getSession w \<and>
   (threadLocal w (current_thread w) = None \<longrightarrow>
      fst (getSession w) = sessions_created w \<and>
      added w (snd (getSession w)) = [(current_thread w, NewSession (sessions_created w))] \<and>
      sessions_created (snd (getSession w)) = Suc (sessions_created w) \<and>
      threadLocal (snd (getSession w)) (current_thread w) = Some (sessions_created w)) \<and>
   (\<forall>s. threadLocal w (current_thread w) = Some s \<longrightarrow> getSession w = (s, w)) \<and>
   (\<forall>t. t \<noteq> current_thread w \<longrightarrow> threadLocal (snd (getSession w)) t = threadLocal w t) \<and>
   (\<forall>t. sessions_made_by t (added w (snd (downloadAllSites_threaded sched net sites w))) \<le> 1) \<and>
   (\<forall>t s u. (t, Get s u) \<in> set (added w (snd (downloadAllSites_threaded sched net sites w))) \<longrightarrow>
       threadLocal (snd (downloadAllSites_threaded sched net sites w)) t = Some s) \<and>
   (\<forall>x \<in> set (added w (snd (downloadAllSites_threaded sched net sites w))).
       threads_started w < fst x \<and> fst x \<le> threads_started w + max_workers) \<and>
   sessions_created (snd (downloadAllSites_threaded sched net sites w))
     \<le> sessions_created w + max_workers"
proof -
  have a: "getSession (snd (getSession w)) = getSession w"
    using getSession_idem [OF prod.collapse [symmetric], of w] by simp
  have b: "threadLocal w (current_thread w) = None \<longrightarrow>
      fst (getSession w) = sessions_created w \<and>
      added w (snd (getSession w)) = [(current_thread w, NewSession (sessions_created w))] \<and>
      sessions_created (snd (getSession w)) = Suc (sessions_created w) \<and>
      threadLocal (snd (getSession w)) (current_thread w) = Some (sessions_created w)"
    by (simp add: added_getSession) (simp add: getSession_unset)
  have c: "\<forall>s. threadLocal w (current_thread w) = Some s \<longrightarrow> getSession w = (s, w)"
    by (simp add: getSession_set)
  have d: "\<forall>t. t \<noteq> current_thread w \<longrightarrow> threadLocal (snd (getSession w)) t = threadLocal w t"
    by (cases "threadLocal w (current_thread w)") (simp_all add: getSession_unset getSession_set)
  from downloadAllSites_threaded_spec [OF prod.collapse [symmetric], of sched net sites w]
  obtain X where t: "trace (snd (downloadAllSites_threaded sched net sites w)) = trace w @ X"
    and th: "\<forall>x \<in> set X. threads_started w < fst x \<and> fst x \<le> threads_started w + max_workers"
    and g: "\<forall>t s v. (t, Get s v) \<in> set X \<longrightarrow>
              threadLocal (snd (downloadAllSites_threaded sched net sites w)) t = Some s"
    and m: "\<forall>t. sessions_made_by t X \<le> 1"
    and sc: "sessions_created (snd (downloadAllSites_threaded sched net sites w))
               \<le> sessions_created w + max_workers"
    by blast
  have ad: "added w (snd (downloadAllSites_threaded sched net sites w)) = X"
    using t by (rule added_trace)
  from a b c d th g m sc show ?thesis unfolding ad by (intro conjI)
qed

theorem getSession_once_per_thread_witness:
  "threadLocal initial_proc (current_thread initial_proc) = None \<and>
   fst (getSession initial_proc) = 0 \<and>
   added initial_proc (snd (getSession initial_proc)) = [(0, NewSession 0)] \<and>
   threadLocal (snd (getSession initial_proc)) (current_thread (snd (getSession initial_proc))) = Some 0 \<and>
   getSession (snd (getSession initial_proc)) = (0, snd (getSession initial_proc)) \<and>
   (7::nat) \<noteq> current_thread initial_proc \<and>
   threadLocal (snd (getSession initial_proc)) 7 = None \<and>
   (1, Get 0 ''http://c'') \<in> set (added initial_proc
      (snd (downloadAllSites_threaded (\<lambda>i. i mod 2) all_up
              [''http://a'', ''http://b'', ''http://c''] initial_proc))) \<and>
   threadLocal (snd (downloadAllSites_threaded (\<lambda>i. i mod 2) all_up
              [''http://a'', ''http://b'', ''http://c''] initial_proc)) 1 = Some 0 \<and>
   threads_started initial_proc < 1 \<and> 1 \<le> threads_started initial_proc + max_workers"
proof -
  have h1: "threadLocal initial_proc (current_thread initial_proc) = None"
    and h2: "sessions_created initial_proc = 0" "current_thread initial_proc = 0"
      "threads_started initial_proc = 0"
    and h3: "threadLocal initial_proc 7 = None"
    by (simp_all add: initial_proc_def)
  have h4: "(1, Get 0 ''http://c'') \<in> set (added initial_proc
      (snd (downloadAllSites_threaded (\<lambda>i. i mod 2) all_up
              [''http://a'', ''http://b'', ''http://c''] initial_proc)))"
    by code_simp
  note t = getSession_once_per_thread [where w = initial_proc and sched = "\<lambda>i. i mod 2"
      and net = all_up and sites = "[''http://a'', ''http://b'', ''http://c'']"]
  have c: "current_thread (snd (getSession initial_proc)) = 0"
    by (simp add: getSession_unset [OF h1] h2)
  have "getSession (snd (getSession initial_proc)) = (0, snd (getSession initial_proc))"
    using t h1 h2 by (metis prod.collapse)
  moreover have "threadLocal (snd (downloadAllSites_threaded (\<lambda>i. i mod 2) all_up
              [''http://a'', ''http://b'', ''http://c''] initial_proc)) 1 = Some 0"
    using t h4 by blast
  moreover have "(1::nat) \<le> threads_started initial_proc + max_workers"
    using t h4 by force
  ultimately show ?thesis using t h1 h2 h3 h4 c by simp
qed

lemma setGlobalSession_unset:
  "global_session w = None \<Longrightarrow>
     setGlobalSession w =
       (emit (NewSession (sessions_created w)) (w\<lparr>sessions_created := Suc (sessions_created w)\<rparr>))
         \<lparr>global_session := Some (sessions_created w)\<rparr>"
  by (simp add: setGlobalSession_def Session_eq)

lemma setGlobalSession_set: "global_session w = Some s \<Longrightarrow> setGlobalSession w = w"
  by (simp add: setGlobalSession_def)

lemma setGlobalSession_idem: "setGlobalSession (setGlobalSession w) = setGlobalSession w"
proof (cases "global_session w")
  case None
  then have "global_session (setGlobalSession w) = Some (sessions_created w)"
    by (simp add: setGlobalSession_unset)
  then show ?thesis by (rule setGlobalSession_set)
next
  case (Some s)
  then show ?thesis by (simp add: setGlobalSession_set)
qed

lemma one_session_start:
  "global_session parent = None \<Longrightarrow>
     one_session (sessions_created parent) (start_worker setGlobalSession parent k)"
  by (simp add: start_worker_def setGlobalSession_unset one_session_def events_def
      List.map_filter_simps emit_def)

lemma one_session_step:
  assumes "downloadSite_mp net u w = (r, w1)" "one_session s0 w"
  shows "one_session s0 w1"
  using assms
  by (auto simp: downloadSite_mp_def session_get_def one_session_def events_def
      map_filter_append List.map_filter_simps split: sum.splits) blast+

lemma at_most_one_start:
  "length (List.map_filter the_new (events (start_worker setGlobalSession parent k))) \<le> 1"
  by (cases "global_session parent")
    (simp_all add: start_worker_def setGlobalSession_unset setGlobalSession_set events_def
      List.map_filter_simps emit_def)

lemma at_most_one_step:
  assumes "downloadSite_mp net u w = (r, w1)"
    "length (List.map_filter the_new (events w)) \<le> 1"
  shows "length (List.map_filter the_new (events w1)) \<le> 1"
  using assms
  by (cases "global_session w")
    (auto simp: downloadSite_mp_def session_get_def events_def
      map_filter_append List.map_filter_simps split: sum.splits)

lemma downloadAllSites_mp_pool:
  assumes "downloadAllSites_mp sched pick cpus net sites w = (r, workers)"
  obtains r0 where "pool_map sched pick cpus setGlobalSession (downloadSite_mp net) sites w = (r0, workers)"
  using assms unfolding downloadAllSites_mp_def
  by (cases "pool_map sched pick cpus setGlobalSession (downloadSite_mp net) sites w")
    (auto split: sum.splits)

text \<open>
  Claim C5. \<^verbatim>\<open>setGlobalSession\<close> called twice is \<^verbatim>\<open>setGlobalSession\<close> called once: it
  constructs a session, as its only effect, when the global is unset, and changes nothing
  when it is set. In a run of the process-pool \<^verbatim>\<open>downloadAllSites\<close> there is one worker
  per processor, no worker constructs more than one session, and when the parent's
  global is unset (as it is whenever the program runs) every worker has constructed
  exactly one session, at its start, holds it in its global and has issued every request
  through it.
\<close>

theorem setGlobalSession_once_per_worker:
  "setGlobalSession (setGlobalSession w) = setGlobalSession w \<and>
   (global_session w = None \<longrightarrow>
      global_session (setGlobalSession w) = Some (sessions_created w) \<and>
      added w (setGlobalSession w) = [(current_thread w, NewSession (sessions_created w))] \<and>
      sessions_created (setGlobalSession w) = Suc (sessions_created w)) \<and>
   (\<forall>s. global_session w = Some s \<longrightarrow> setGlobalSession w = w) \<and>
   length (snd (downloadAllSites_mp sched pick cpus net sites w)) = pool_size cpus \<and>
   (\<forall>wk \<in> set (snd (downloadAllSites_mp sched pick cpus net sites w)).
      length (List.map_filter the_new (events wk)) \<le> 1) \<and>
   (global_session w = None \<longrightarrow>
      (\<forall>wk \<in> set (snd (downloadAllSites_mp sched pick cpus net sites w)).
         List.map_filter the_new (events wk) = [sessions_created w] \<and>
         global_session wk = Some (sessions_created w) \<and>
         sessions_created wk = Suc (sessions_created w) \<and>
         (\<forall>t s u. (t, Get s u) \<in> set (trace wk) \<longrightarrow> s = sessions_created w)))"
proof -
  let ?R = "downloadAllSites_mp sched pick cpus net sites w"
  obtain r0 where pm: "pool_map sched pick cpus setGlobalSession (downloadSite_mp net) sites w = (r0, snd ?R)"
    by (rule downloadAllSites_mp_pool [OF prod.collapse [symmetric]])
  have b: "global_session w = None \<longrightarrow>
      global_session (setGlobalSession w) = Some (sessions_created w) \<and>
      added w (setGlobalSession w) = [(current_thread w, NewSession (sessions_created w))] \<and>
      sessions_created (setGlobalSession w) = Suc (sessions_created w)"
    by (simp add: setGlobalSession_unset added_def)
  have c: "\<forall>s. global_session w = Some s \<longrightarrow> setGlobalSession w = w"
    by (simp add: setGlobalSession_set)
  have d: "length (snd ?R) = pool_size cpus"
    using downloadAllSites_mp_calls [OF prod.collapse [symmetric], of sched pick cpus net sites w]
    by blast
  have e: "\<forall>wk \<in> set (snd ?R). length (List.map_filter the_new (events wk)) \<le> 1"
    by (rule pool_map_inv [where fn = "downloadSite_mp net" and init = setGlobalSession
          and Inv = "\<lambda>wk. length (List.map_filter the_new (events wk)) \<le> 1", OF _ _ pm])
      (erule at_most_one_step, assumption, rule at_most_one_start)
  have f: "global_session w = None \<longrightarrow>
      (\<forall>wk \<in> set (snd ?R).
         List.map_filter the_new (events wk) = [sessions_created w] \<and>
         global_session wk = Some (sessions_created w) \<and>
         sessions_created wk = Suc (sessions_created w) \<and>
         (\<forall>t s u. (t, Get s u) \<in> set (trace wk) \<longrightarrow> s = sessions_created w))"
  proof
    assume none: "global_session w = None"
    have "\<forall>wk \<in> set (snd ?R). one_session (sessions_created w) wk"
      by (rule pool_map_inv [where fn = "downloadSite_mp net" and init = setGlobalSession
            and Inv = "one_session (sessions_created w)", OF _ _ pm])
        (erule one_session_step, assumption, rule one_session_start [OF none])
    then show "\<forall>wk \<in> set (snd ?R).
         List.map_filter the_new (events wk) = [sessions_created w] \<and>
         global_session wk = Some (sessions_created w) \<and>
         sessions_created wk = Suc (sessions_created w) \<and>
         (\<forall>t s u. (t, Get s u) \<in> set (trace wk) \<longrightarrow> s = sessions_created w)"
      unfolding one_session_def by blast
  qed
  from setGlobalSession_idem [of w] b c d e f show ?thesis by (intro conjI)
qed

theorem setGlobalSession_once_per_worker_witness:
  "global_session initial_proc = None \<and>
   global_session (setGlobalSession initial_proc) = Some 0 \<and>
   setGlobalSession (setGlobalSession initial_proc) = setGlobalSession initial_proc \<and>
   snd (downloadAllSites_mp (\<lambda>j. j) 0 2 all_up [''http://a'', ''http://b'', ''http://c'']
          initial_proc) ! 1
     \<in> set (snd (downloadAllSites_mp (\<lambda>j. j) 0 2 all_up [''http://a'', ''http://b'', ''http://c'']
          initial_proc)) \<and>
   List.map_filter the_new (events
     (snd (downloadAllSites_mp (\<lambda>j. j) 0 2 all_up [''http://a'', ''http://b'', ''http://c'']
          initial_proc) ! 1)) = [0] \<and>
   (0, Get 0 ''http://b'') \<in> set (trace
     (snd (downloadAllSites_mp (\<lambda>j. j) 0 2 all_up [''http://a'', ''http://b'', ''http://c'']
          initial_proc) ! 1))"
proof -
  let ?ws = "snd (downloadAllSites_mp (\<lambda>j. j) 0 2 all_up [''http://a'', ''http://b'', ''http://c'']
          initial_proc)"
  have h1: "global_session initial_proc = None" and h2: "sessions_created initial_proc = 0"
    by (simp_all add: initial_proc_def)
  have h3: "(0, Get 0 ''http://b'') \<in> set (trace (?ws ! 1))" by code_simp
  note t = setGlobalSession_once_per_worker [where w = initial_proc and sched = "\<lambda>j. j"
      and pick = 0 and cpus = 2 and net = all_up and sites = "[''http://a'', ''http://b'', ''http://c'']"]
  from t have "length ?ws = pool_size 2" by blast
  then have m: "?ws ! 1 \<in> set ?ws" by (simp add: pool_size_def)
  with t h1 h2 have "List.map_filter the_new (events (?ws ! 1)) = [0]" by simp
  with t h1 h2 h3 m show ?thesis by simp
qed







section \<open>The claims about the test drivers and the asyncio runner\<close>


text \<open>
  Claim C9. The asyncio \<^verbatim>\<open>downloadAllSites\<close> makes one task per URL, for the whole list,
  before any task runs: after the session is made, the events of a run are the creation
  of the tasks in the order of the list, then the start of every task (the call of
  \<^verbatim>\<open>downloadSite\<close> and its request), and only then the lines of the tasks that got a
  response, in the order the outcomes arrive, every task's outcome arriving once; the
  session is closed last. So every task has started before any task has finished.
\<close>

theorem tasks_created_before_awaited:
  "fst (create_tasks sites [] w) = zip [0..<length sites] sites \<and>
   map snd (added w (snd (downloadAllSites_async order net sites w))) =
      NewSession (sessions_created w)
        # map (\<lambda>(i, u). TaskCreated i u) (zip [0..<length sites] sites)
        @ concat (map (\<lambda>u. [Call (DownloadSite u), Get (sessions_created w) u]) sites)
        @ map Print (List.map_filter (async_line net w sites) (arrival_order order (length sites)))
        @ [CloseSession (sessions_created w)] \<and>
   mset (arrival_order order (length sites)) = mset [0..<length sites]"
proof -
  have a: "fst (create_tasks sites [] w) = zip [0..<length sites] sites"
    by (simp add: create_tasks_eq)
  note b = downloadAllSites_async_full [OF prod.collapse [symmetric], of order net sites w,
      THEN conjunct2]
  note c = arrival_order_perm [of order "length sites"]
  from a b c show ?thesis by (intro conjI)
qed

end
